theory Spec2Isabelle
  imports Main
begin

section \<open>Python values and exceptions\<close>

text \<open>
  The storages of \<^verbatim>\<open>tinydb/storages.py\<close> hold and exchange Python values: the snapshot
  that \<^verbatim>\<open>write\<close> receives and \<^verbatim>\<open>read\<close> returns. The datatype below has the values
  the standard library's \<^verbatim>\<open>json\<close> module treats differently: \<^verbatim>\<open>None\<close>, booleans,
  integers, strings, lists, tuples (serialised like lists, read back as lists),
  dictionaries with string keys (kept in insertion order, as Python does) and any other
  object (\<open>PObject\<close>, which \<^verbatim>\<open>json.dumps\<close> rejects). Floating point numbers are left
  out. Strings are lists of 8-bit characters, read as the code points 0 to 255.
\<close>

datatype pyval =
    PNone
  | PBool bool
  | PInt int
  | PStr string
  | PList "pyval list"
  | PTuple "pyval list"
  | PDict "(string \<times> pyval) list"
  | PObject nat

text \<open>
  Every \<^verbatim>\<open>raise\<close> of the source and every exception of a library call it makes is a
  value of \<open>exn\<close>. The two \<^verbatim>\<open>RuntimeError\<close>s and the \<^verbatim>\<open>IOError\<close> of the source carry
  their message. \<open>Unmodelled\<close> is not a Python exception: it marks a JSON text outside
  the modelled fragment (a float, a character beyond code point 255), and \<open>OutOfFuel\<close>
  marks a parser run that used up its recursion budget.
\<close>

datatype exn =
    RuntimeError string
  | IOError string
  | ValueError
  | UnsupportedOperation
  | TypeError
  | JSONDecodeError
  | FileNotFoundError
  | FileExistsError
  | IsADirectoryError
  | AttributeError
  | Unmodelled
  | OutOfFuel

section \<open>The \<^verbatim>\<open>json\<close> module: \<^verbatim>\<open>dumps\<close> and \<^verbatim>\<open>loads\<close>\<close>

text \<open>
  \<^verbatim>\<open>json.dumps(data)\<close> with the default options: separators \<^verbatim>\<open>", "\<close> and \<^verbatim>\<open>": "\<close>,
  no indentation, \<^verbatim>\<open>ensure_ascii\<close> on, so that the output is made of the characters
  \<^verbatim>\<open>0x20\<close> to \<^verbatim>\<open>0x7e\<close> only.
\<close>

abbreviation (input) DQ :: char where "DQ \<equiv> CHR 0x22"
abbreviation (input) BSL :: char where "BSL \<equiv> CHR 0x5C"

definition hex_digit :: "nat \<Rightarrow> char" where
  "hex_digit n = ''0123456789abcdef'' ! (n mod 16)"

definition escape_char :: "char \<Rightarrow> string" where
  "escape_char c =
     (if c = DQ then [BSL, DQ]
      else if c = BSL then [BSL, BSL]
      else if c = CHR 0x08 then [BSL, CHR ''b'']
      else if c = CHR 0x0C then [BSL, CHR ''f'']
      else if c = CHR 0x0A then [BSL, CHR ''n'']
      else if c = CHR 0x0D then [BSL, CHR ''r'']
      else if c = CHR 0x09 then [BSL, CHR ''t'']
      else if 0x20 \<le> (of_char c :: nat) \<and> (of_char c :: nat) \<le> 0x7E then [c]
      else [BSL, CHR ''u'', CHR ''0'', CHR ''0'',
            hex_digit ((of_char c :: nat) div 16), hex_digit ((of_char c :: nat) mod 16)])"

definition encode_str :: "string \<Rightarrow> string" where
  "encode_str s = DQ # concat (map escape_char s) @ [DQ]"

definition digit_char :: "nat \<Rightarrow> char" where
  "digit_char n = ''0123456789'' ! (n mod 10)"

fun encode_nat :: "nat \<Rightarrow> string" where
  "encode_nat n = (if n < 10 then [digit_char n] else encode_nat (n div 10) @ [digit_char (n mod 10)])"

declare encode_nat.simps [simp del]

definition encode_int :: "int \<Rightarrow> string" where
  "encode_int i = (if i < 0 then CHR ''-'' # encode_nat (nat (- i)) else encode_nat (nat i))"

fun encode :: "pyval \<Rightarrow> string"
  and encode_elems :: "pyval list \<Rightarrow> string"
  and encode_members :: "(string \<times> pyval) list \<Rightarrow> string" where
  "encode PNone = ''null''"
| "encode (PBool b) = (if b then ''true'' else ''false'')"
| "encode (PInt i) = encode_int i"
| "encode (PStr s) = encode_str s"
| "encode (PList vs) = CHR ''['' # encode_elems vs"
| "encode (PTuple vs) = CHR ''['' # encode_elems vs"
| "encode (PDict kvs) = CHR ''{'' # encode_members kvs"
| "encode (PObject n) = []"
| "encode_elems [] = '']''"
| "encode_elems [v] = encode v @ '']''"
| "encode_elems (v # w # vs) = encode v @ '', '' @ encode_elems (w # vs)"
| "encode_members [] = ''}''"
| "encode_members [(k, v)] = encode_str k @ '': '' @ encode v @ ''}''"
| "encode_members ((k, v) # kv # kvs) =
     encode_str k @ '': '' @ encode v @ '', '' @ encode_members (kv # kvs)"

text \<open>
  \<^verbatim>\<open>json.dumps\<close> raises \<^verbatim>\<open>TypeError\<close> at the first object it cannot serialise and
  returns no partial text.
\<close>

fun serializable :: "pyval \<Rightarrow> bool" where
  "serializable (PList vs) = (\<forall>v \<in> set vs. serializable v)"
| "serializable (PTuple vs) = (\<forall>v \<in> set vs. serializable v)"
| "serializable (PDict kvs) = (\<forall>kv \<in> set kvs. serializable (snd kv))"
| "serializable (PObject n) = False"
| "serializable _ = True"

definition json_dumps :: "pyval \<Rightarrow> exn + string" where
  "json_dumps v = (if serializable v then Inr (encode v) else Inl TypeError)"

text \<open>
  \<^verbatim>\<open>json.loads(text)\<close> with the default options, as a recursive-descent parser. A
  result is the value read and the text left, or a failure: \<open>JSONDecodeError\<close> for a
  malformed text, \<open>Unmodelled\<close> for a well-formed text outside the fragment.
\<close>

datatype 'a presult = Parsed 'a string | Failed exn

definition is_ws :: "char \<Rightarrow> bool" where
  "is_ws c \<longleftrightarrow> c = CHR '' '' \<or> c = CHR 0x09 \<or> c = CHR 0x0A \<or> c = CHR 0x0D"

definition skip_ws :: "string \<Rightarrow> string" where
  "skip_ws s = dropWhile is_ws s"

definition is_digit :: "char \<Rightarrow> bool" where
  "is_digit c \<longleftrightarrow> 48 \<le> (of_char c :: nat) \<and> (of_char c :: nat) \<le> 57"

definition digit_val :: "char \<Rightarrow> nat" where
  "digit_val c = (of_char c :: nat) - 48"

definition hex_val :: "char \<Rightarrow> nat option" where
  "hex_val c =
     (let n = (of_char c :: nat) in
      if 48 \<le> n \<and> n \<le> 57 then Some (n - 48)
      else if 97 \<le> n \<and> n \<le> 102 then Some (n - 87)
      else if 65 \<le> n \<and> n \<le> 70 then Some (n - 55)
      else None)"

definition decode_uXXXX :: "char \<Rightarrow> char \<Rightarrow> char \<Rightarrow> char \<Rightarrow> nat option" where
  "decode_uXXXX a b c d =
     (case (hex_val a, hex_val b, hex_val c, hex_val d) of
        (Some w, Some x, Some y, Some z) \<Rightarrow> Some (((w * 16 + x) * 16 + y) * 16 + z)
      | _ \<Rightarrow> None)"

definition unescape :: "char \<Rightarrow> char option" where
  "unescape e =
     (if e = DQ then Some DQ
      else if e = BSL then Some BSL
      else if e = CHR ''/'' then Some (CHR ''/'')
      else if e = CHR ''b'' then Some (CHR 0x08)
      else if e = CHR ''f'' then Some (CHR 0x0C)
      else if e = CHR ''n'' then Some (CHR 0x0A)
      else if e = CHR ''r'' then Some (CHR 0x0D)
      else if e = CHR ''t'' then Some (CHR 0x09)
      else None)"

definition pcons :: "char \<Rightarrow> string presult \<Rightarrow> string presult" where
  "pcons c r = (case r of Parsed s rest \<Rightarrow> Parsed (c # s) rest | Failed e \<Rightarrow> Failed e)"

text \<open>
  \<^verbatim>\<open>scanstring\<close> reads a string literal from the character after its opening quote
  (strict mode: a raw control character is an error).
\<close>

fun scanstring :: "string \<Rightarrow> string presult" where
  "scanstring [] = Failed JSONDecodeError"
| "scanstring [c] =
     (if c = DQ then Parsed [] [] else Failed JSONDecodeError)"
| "scanstring (c # e # r) =
     (if c = DQ then Parsed [] (e # r)
      else if c = BSL then
        (if e = CHR ''u'' then
           (case r of
              h1 # h2 # h3 # h4 # r' \<Rightarrow>
                (case decode_uXXXX h1 h2 h3 h4 of
                   None \<Rightarrow> Failed JSONDecodeError
                 | Some n \<Rightarrow> if n < 256 then pcons (char_of n) (scanstring r') else Failed Unmodelled)
            | _ \<Rightarrow> Failed JSONDecodeError)
         else
           (case unescape e of
              None \<Rightarrow> Failed JSONDecodeError
            | Some ch \<Rightarrow> pcons ch (scanstring r)))
      else if (of_char c :: nat) < 0x20 then Failed JSONDecodeError
      else if 0x80 \<le> (of_char c :: nat) then Failed Unmodelled
      else pcons c (scanstring (e # r)))"

fun scan_digits :: "string \<Rightarrow> nat \<Rightarrow> nat \<times> string" where
  "scan_digits [] acc = (acc, [])"
| "scan_digits (c # r) acc =
     (if is_digit c then scan_digits r (acc * 10 + digit_val c) else (acc, c # r))"

text \<open>The integer part of a number, the regular expression \<^verbatim>\<open>0|[1-9]\d*\<close>.\<close>

definition scan_int :: "string \<Rightarrow> (nat \<times> string) option" where
  "scan_int s =
     (case s of
        [] \<Rightarrow> None
      | c # r \<Rightarrow>
          if c = CHR ''0'' then Some (0, r)
          else if is_digit c then Some (scan_digits r (digit_val c))
          else None)"

text \<open>
  Whether a fraction \<^verbatim>\<open>\.\d+\<close> or an exponent \<^verbatim>\<open>[eE][-+]?\d+\<close> follows the integer
  part: the number is then a float.
\<close>

definition float_follows :: "string \<Rightarrow> bool" where
  "float_follows s =
     (case s of
        [] \<Rightarrow> False
      | c # r \<Rightarrow>
          if c = CHR ''.'' then (case r of [] \<Rightarrow> False | d # _ \<Rightarrow> is_digit d)
          else if c = CHR ''e'' \<or> c = CHR ''E'' then
            (case r of
               [] \<Rightarrow> False
             | d # r' \<Rightarrow>
                 if is_digit d then True
                 else if d = CHR ''+'' \<or> d = CHR ''-'' then
                   (case r' of [] \<Rightarrow> False | d' # _ \<Rightarrow> is_digit d')
                 else False)
          else False)"

definition scan_number :: "string \<Rightarrow> pyval presult" where
  "scan_number s =
     (let neg = (s \<noteq> [] \<and> hd s = CHR ''-'');
          body = (if neg then tl s else s)
      in case scan_int body of
           Some (n, r) \<Rightarrow>
             if float_follows r then Failed Unmodelled
             else Parsed (PInt (if neg then - int n else int n)) r
         | None \<Rightarrow>
             if take 3 s = ''NaN'' \<or> take 8 s = ''Infinity'' \<or> take 9 s = ''-Infinity''
             then Failed Unmodelled
             else Failed JSONDecodeError)"

text \<open>\<^verbatim>\<open>dict(pairs)\<close>: a repeated key keeps its first position and takes the last value.\<close>

fun dict_set :: "(string \<times> pyval) list \<Rightarrow> string \<Rightarrow> pyval \<Rightarrow> (string \<times> pyval) list" where
  "dict_set [] k v = [(k, v)]"
| "dict_set ((k', v') # d) k v =
     (if k' = k then (k, v) # d else (k', v') # dict_set d k v)"

definition py_dict :: "(string \<times> pyval) list \<Rightarrow> (string \<times> pyval) list" where
  "py_dict pairs = foldl (\<lambda>d kv. dict_set d (fst kv) (snd kv)) [] pairs"

text \<open>
  The scanner. Python recurses on the nesting of the text; here the first argument bounds
  the number of nested calls. \<open>parse_elems\<close> reads the elements of a non-empty array up to
  its closing bracket, \<open>parse_members\<close> the members of a non-empty object from the
  character after the opening quote of the first key.
\<close>

fun parse_value :: "nat \<Rightarrow> string \<Rightarrow> pyval presult"
  and parse_elems :: "nat \<Rightarrow> string \<Rightarrow> (pyval list) presult"
  and parse_members :: "nat \<Rightarrow> string \<Rightarrow> ((string \<times> pyval) list) presult" where
  "parse_value 0 s = Failed OutOfFuel"
| "parse_value (Suc n) s =
     (case s of
        [] \<Rightarrow> Failed JSONDecodeError
      | c # r \<Rightarrow>
          if c = DQ then
            (case scanstring r of
               Parsed str r' \<Rightarrow> Parsed (PStr str) r'
             | Failed e \<Rightarrow> Failed e)
          else if c = CHR ''{'' then
            (case skip_ws r of
               [] \<Rightarrow> Failed JSONDecodeError
             | d # r' \<Rightarrow>
                 if d = CHR ''}'' then Parsed (PDict []) r'
                 else if d = DQ then
                   (case parse_members n r' of
                      Parsed kvs r'' \<Rightarrow> Parsed (PDict (py_dict kvs)) r''
                    | Failed e \<Rightarrow> Failed e)
                 else Failed JSONDecodeError)
          else if c = CHR ''['' then
            (case skip_ws r of
               [] \<Rightarrow> Failed JSONDecodeError
             | d # r' \<Rightarrow>
                 if d = CHR '']'' then Parsed (PList []) r'
                 else
                   (case parse_elems n (d # r') of
                      Parsed vs r'' \<Rightarrow> Parsed (PList vs) r''
                    | Failed e \<Rightarrow> Failed e))
          else if take 4 s = ''null'' then Parsed PNone (drop 4 s)
          else if take 4 s = ''true'' then Parsed (PBool True) (drop 4 s)
          else if take 5 s = ''false'' then Parsed (PBool False) (drop 5 s)
          else scan_number s)"
| "parse_elems 0 s = Failed OutOfFuel"
| "parse_elems (Suc n) s =
     (case parse_value n s of
        Failed e \<Rightarrow> Failed e
      | Parsed v r \<Rightarrow>
          (case skip_ws r of
             [] \<Rightarrow> Failed JSONDecodeError
           | d # r1 \<Rightarrow>
               if d = CHR '']'' then Parsed [v] r1
               else if d = CHR '','' then
                 (case parse_elems n (skip_ws r1) of
                    Parsed vs r2 \<Rightarrow> Parsed (v # vs) r2
                  | Failed e \<Rightarrow> Failed e)
               else Failed JSONDecodeError))"
| "parse_members 0 s = Failed OutOfFuel"
| "parse_members (Suc n) s =
     (case scanstring s of
        Failed e \<Rightarrow> Failed e
      | Parsed k r \<Rightarrow>
          (case skip_ws r of
             [] \<Rightarrow> Failed JSONDecodeError
           | c # r1 \<Rightarrow>
               if c \<noteq> CHR '':'' then Failed JSONDecodeError
               else
                 (case parse_value n (skip_ws r1) of
                    Failed e \<Rightarrow> Failed e
                  | Parsed v r2 \<Rightarrow>
                      (case skip_ws r2 of
                         [] \<Rightarrow> Failed JSONDecodeError
                       | d # r3 \<Rightarrow>
                           if d = CHR ''}'' then Parsed [(k, v)] r3
                           else if d = CHR '','' then
                             (case skip_ws r3 of
                                [] \<Rightarrow> Failed JSONDecodeError
                              | q # r4 \<Rightarrow>
                                  if q = DQ then
                                    (case parse_members n r4 of
                                       Parsed kvs r5 \<Rightarrow> Parsed ((k, v) # kvs) r5
                                     | Failed e \<Rightarrow> Failed e)
                                  else Failed JSONDecodeError)
                           else Failed JSONDecodeError))))"

text \<open>
  \<^verbatim>\<open>json.loads\<close>: skip leading white space, read one value, skip trailing white space,
  and reject any text left (\<^verbatim>\<open>Extra data\<close>). Every nested call of the scanner comes
  after at least one consumed character per two calls, so the budget below is never used
  up (lemma \<open>json_loads_fuel\<close>).
\<close>

definition json_loads :: "string \<Rightarrow> exn + pyval" where
  "json_loads s =
     (case parse_value (2 * length s + 2) (skip_ws s) of
        Failed e \<Rightarrow> Inl e
      | Parsed v r \<Rightarrow> if skip_ws r = [] then Inr v else Inl JSONDecodeError)"

section \<open>The abstract base class \<^verbatim>\<open>Storage\<close>\<close>

text \<open>
  A method of a storage takes the state of the instance (and of what it owns) and returns
  its outcome with the new state: \<open>Inl e\<close> when it raises \<open>e\<close>, \<open>Inr x\<close> when it returns
  \<open>x\<close>. A method that raises may have changed the state before.
\<close>

type_synonym ('a, 's) action = "'s \<Rightarrow> (exn + 'a) \<times> 's"

definition and_then :: "('a, 's) action \<Rightarrow> ('a \<Rightarrow> ('b, 's) action) \<Rightarrow> ('b, 's) action" where
  "and_then m f s = (case m s of (Inl e, s') \<Rightarrow> (Inl e, s') | (Inr x, s') \<Rightarrow> f x s')"

text \<open>
  \<^verbatim>\<open>try: body finally: cleanup\<close>. The cleanup runs on every path; when it raises, its
  exception is the one that propagates.
\<close>

definition try_finally :: "('a, 's) action \<Rightarrow> (unit, 's) action \<Rightarrow> ('a, 's) action" where
  "try_finally body cleanup s =
     (case body s of
        (r, s') \<Rightarrow>
          (case cleanup s' of
             (Inl e, s'') \<Rightarrow> (Inl e, s'')
           | (Inr _, s'') \<Rightarrow> (r, s'')))"

text \<open>The base class has one field, \<^verbatim>\<open>_in_transaction\<close>; the subclasses add theirs.\<close>

record storage =
  in_transaction :: bool

text \<open>
  The three abstract methods \<^verbatim>\<open>_begin_transaction\<close>, \<^verbatim>\<open>_commit_transaction\<close> and
  \<^verbatim>\<open>_rollback_transaction\<close> that a subclass overrides.
\<close>

record 's backend =
  begin_transaction :: "(unit, 's) action"
  commit_transaction :: "(unit, 's) action"
  rollback_transaction :: "(unit, 's) action"

definition Storage_begin ::
  "('a storage_scheme) backend \<Rightarrow> (unit, 'a storage_scheme) action" where
  "Storage_begin B s =
     (if in_transaction s then (Inl (RuntimeError ''Transaction already in progress''), s)
      else begin_transaction B (s\<lparr>in_transaction := True\<rparr>))"

definition Storage_commit ::
  "('a storage_scheme) backend \<Rightarrow> (unit, 'a storage_scheme) action" where
  "Storage_commit B s =
     (if \<not> in_transaction s then (Inl (RuntimeError ''No transaction in progress''), s)
      else try_finally (commit_transaction B)
             (\<lambda>s'. (Inr (), s'\<lparr>in_transaction := False\<rparr>)) s)"

definition Storage_rollback ::
  "('a storage_scheme) backend \<Rightarrow> (unit, 'a storage_scheme) action" where
  "Storage_rollback B s =
     (if \<not> in_transaction s then (Inl (RuntimeError ''No transaction in progress''), s)
      else try_finally (rollback_transaction B)
             (\<lambda>s'. (Inr (), s'\<lparr>in_transaction := False\<rparr>)) s)"

text \<open>
  The context manager \<^verbatim>\<open>transaction\<close>, used as \<^verbatim>\<open>with storage.transaction(): block\<close>.
  The generator runs \<^verbatim>\<open>begin\<close> before it yields; an error of \<^verbatim>\<open>begin\<close> leaves the
  \<^verbatim>\<open>with\<close> statement before the block runs. The block's own exception is thrown into
  the generator at the \<^verbatim>\<open>yield\<close>; an exception of \<^verbatim>\<open>commit\<close> is raised inside the same
  \<^verbatim>\<open>try\<close>. Either reaches the bare \<^verbatim>\<open>except:\<close>, which calls \<^verbatim>\<open>rollback\<close> and, when that
  returns, re-raises the exception it caught.
\<close>

definition Storage_transaction ::
  "('a storage_scheme) backend \<Rightarrow> (unit, 'a storage_scheme) action
     \<Rightarrow> (unit, 'a storage_scheme) action" where
  "Storage_transaction B block s =
     (case Storage_begin B s of
        (Inl e, s1) \<Rightarrow> (Inl e, s1)
      | (Inr _, s1) \<Rightarrow>
          (case and_then block (\<lambda>_. Storage_commit B) s1 of
             (Inr _, s2) \<Rightarrow> (Inr (), s2)
           | (Inl e, s2) \<Rightarrow>
               (case Storage_rollback B s2 of
                  (Inl e', s3) \<Rightarrow> (Inl e', s3)
                | (Inr _, s3) \<Rightarrow> (Inl e, s3))))"

text \<open>
  \<^verbatim>\<open>__enter__\<close> and \<^verbatim>\<open>__exit__\<close> each call \<^verbatim>\<open>self.transaction()\<close>, which builds a new
  generator-based context manager, and call one method of it.

  Closing a generator that is suspended at the \<^verbatim>\<open>yield\<close> raises \<^verbatim>\<open>GeneratorExit\<close>
  there, here inside the \<^verbatim>\<open>try\<close>: the bare \<^verbatim>\<open>except:\<close> runs \<^verbatim>\<open>rollback\<close> and
  re-raises, and the close returns; an exception of that \<^verbatim>\<open>rollback\<close> is raised by the
  close.
\<close>

definition generator_close ::
  "('a storage_scheme) backend \<Rightarrow> (unit, 'a storage_scheme) action" where
  "generator_close B = Storage_rollback B"

text \<open>
  Nothing keeps a reference to the context manager that \<^verbatim>\<open>__enter__\<close> builds once
  \<^verbatim>\<open>__enter__\<close> has returned. Python closes a suspended generator when it reclaims it
  (PEP 342), and an exception of that close is reported on the error stream and dropped.
  When the generator is reclaimed depends on the runtime: CPython, which counts
  references, reclaims it as soon as \<^verbatim>\<open>__enter__\<close> is left; a runtime with a tracing
  collector reclaims it at some later time, which the model leaves out.
\<close>

datatype runtime = Refcounting | Deferred

definition reclaim ::
  "runtime \<Rightarrow> ('a storage_scheme) backend \<Rightarrow> 'a storage_scheme \<Rightarrow> 'a storage_scheme" where
  "reclaim rt B s = (case rt of Refcounting \<Rightarrow> snd (generator_close B s) | Deferred \<Rightarrow> s)"

text \<open>
  \<^verbatim>\<open>__enter__\<close>: the new generator runs up to its \<^verbatim>\<open>yield\<close>, that is through
  \<^verbatim>\<open>begin\<close>. If \<^verbatim>\<open>begin\<close> raises, the generator has finished and there is nothing to
  close.
\<close>

definition Storage_enter ::
  "runtime \<Rightarrow> ('a storage_scheme) backend \<Rightarrow> (unit, 'a storage_scheme) action" where
  "Storage_enter rt B s =
     (case Storage_begin B s of
        (Inl e, s1) \<Rightarrow> (Inl e, s1)
      | (Inr _, s1) \<Rightarrow> (Inr (), reclaim rt B s1))"

text \<open>
  \<^verbatim>\<open>__exit__\<close>, with the exception the \<^verbatim>\<open>with\<close> block raised, if any. Without one
  (\<open>None\<close>), the context manager resumes its generator, which here has not started: it
  runs \<^verbatim>\<open>begin\<close> and reaches the \<^verbatim>\<open>yield\<close> instead of finishing, so the context manager
  raises \<^verbatim>\<open>RuntimeError("generator didn't stop")\<close> and, in the \<^verbatim>\<open>finally\<close> of that
  \<^verbatim>\<open>raise\<close>, closes the generator: an exception of the close replaces the
  \<^verbatim>\<open>RuntimeError\<close>. With an exception, the context manager throws it into the
  generator, which has not started and so raises it at once without running any of its
  code; \<^verbatim>\<open>__exit__\<close> then returns \<^verbatim>\<open>False\<close> and the \<^verbatim>\<open>with\<close> statement re-raises
  the exception.
\<close>

definition Storage_exit ::
  "('a storage_scheme) backend \<Rightarrow> exn option \<Rightarrow> (bool, 'a storage_scheme) action" where
  "Storage_exit B exc s =
     (case exc of
        Some e \<Rightarrow> (Inr False, s)
      | None \<Rightarrow>
          (case Storage_begin B s of
             (Inl e, s1) \<Rightarrow> (Inl e, s1)
           | (Inr _, s1) \<Rightarrow>
               (case generator_close B s1 of
                  (Inl e', s2) \<Rightarrow> (Inl e', s2)
                | (Inr _, s2) \<Rightarrow> (Inl (RuntimeError ''generator didn't stop''), s2))))"

section \<open>\<^verbatim>\<open>MemoryStorage\<close>\<close>

record memory_storage = storage +
  memory :: pyval
  backup :: pyval

definition MemoryStorage_init :: memory_storage where
  "MemoryStorage_init = \<lparr>in_transaction = False, memory = PNone, backup = PNone\<rparr>"

definition MemoryStorage_read :: "(pyval, memory_storage) action" where
  "MemoryStorage_read s = (Inr (memory s), s)"

definition MemoryStorage_write :: "pyval \<Rightarrow> (unit, memory_storage) action" where
  "MemoryStorage_write data s = (Inr (), s\<lparr>memory := data\<rparr>)"

text \<open>
  \<^verbatim>\<open>self._backup = json.loads(json.dumps(self.memory)) if self.memory is not None else None\<close>
\<close>

definition MemoryStorage_begin_transaction :: "(unit, memory_storage) action" where
  "MemoryStorage_begin_transaction s =
     (if memory s \<noteq> PNone then
        (case json_dumps (memory s) of
           Inl e \<Rightarrow> (Inl e, s)
         | Inr text \<Rightarrow>
             (case json_loads text of
                Inl e \<Rightarrow> (Inl e, s)
              | Inr copy \<Rightarrow> (Inr (), s\<lparr>backup := copy\<rparr>)))
      else (Inr (), s\<lparr>backup := PNone\<rparr>))"

definition MemoryStorage_commit_transaction :: "(unit, memory_storage) action" where
  "MemoryStorage_commit_transaction s = (Inr (), s\<lparr>backup := PNone\<rparr>)"

definition MemoryStorage_rollback_transaction :: "(unit, memory_storage) action" where
  "MemoryStorage_rollback_transaction s = (Inr (), s\<lparr>memory := backup s, backup := PNone\<rparr>)"

definition MemoryStorage :: "memory_storage backend" where
  "MemoryStorage =
     \<lparr>begin_transaction = MemoryStorage_begin_transaction,
      commit_transaction = MemoryStorage_commit_transaction,
      rollback_transaction = MemoryStorage_rollback_transaction\<rparr>"

section \<open>Files\<close>

text \<open>
  The file system as the storage sees it: a path names a regular file with its content,
  a directory, or nothing. Parent directories are taken to exist. Contents are byte
  strings; the texts that \<^verbatim>\<open>json.dumps\<close> writes are ASCII, one byte per character.
\<close>

datatype node = File string | Dir

type_synonym fs = "string \<Rightarrow> node option"

text \<open>
  An open text file (\<^verbatim>\<open>open(path, mode, encoding=...)\<close>): its path, its mode string, its
  position and whether it has been closed. Writes are visible in the file system once
  flushed; the source flushes after every write it makes through a handle it keeps.
\<close>

record py_file =
  f_path :: string
  f_mode :: string
  f_pos :: nat
  f_closed :: bool

text \<open>
  The mode strings \<^verbatim>\<open>open\<close> accepts with an encoding: letters of \<^verbatim>\<open>xrwa+tb\<close> without
  repetition, exactly one of \<^verbatim>\<open>x\<close>, \<^verbatim>\<open>r\<close>, \<^verbatim>\<open>w\<close>, \<^verbatim>\<open>a\<close>, and no \<^verbatim>\<open>b\<close> (a binary
  mode takes no encoding, and \<^verbatim>\<open>JSONStorage\<close> always passes one). Any other string
  raises \<^verbatim>\<open>ValueError\<close>.
\<close>

definition valid_mode :: "string \<Rightarrow> bool" where
  "valid_mode m \<longleftrightarrow>
     set m \<subseteq> set ''xrwa+t'' \<and> distinct m \<and>
     length (filter (\<lambda>c. c \<in> set ''xrwa'') m) = 1"

definition readable :: "string \<Rightarrow> bool" where
  "readable m \<longleftrightarrow> CHR ''r'' \<in> set m \<or> CHR ''+'' \<in> set m"

definition writable :: "string \<Rightarrow> bool" where
  "writable m \<longleftrightarrow> CHR ''w'' \<in> set m \<or> CHR ''a'' \<in> set m \<or> CHR ''x'' \<in> set m \<or> CHR ''+'' \<in> set m"

definition py_open :: "string \<Rightarrow> string \<Rightarrow> fs \<Rightarrow> (exn + py_file) \<times> fs" where
  "py_open p m disk =
     (if \<not> valid_mode m then (Inl ValueError, disk)
      else
        (case disk p of
           Some Dir \<Rightarrow> (Inl IsADirectoryError, disk)
         | None \<Rightarrow>
             if CHR ''r'' \<in> set m then (Inl FileNotFoundError, disk)
             else (Inr \<lparr>f_path = p, f_mode = m, f_pos = 0, f_closed = False\<rparr>, disk(p \<mapsto> File []))
         | Some (File c) \<Rightarrow>
             if CHR ''x'' \<in> set m then (Inl FileExistsError, disk)
             else if CHR ''w'' \<in> set m then
               (Inr \<lparr>f_path = p, f_mode = m, f_pos = 0, f_closed = False\<rparr>, disk(p \<mapsto> File []))
             else if CHR ''a'' \<in> set m then
               (Inr \<lparr>f_path = p, f_mode = m, f_pos = length c, f_closed = False\<rparr>, disk)
             else (Inr \<lparr>f_path = p, f_mode = m, f_pos = 0, f_closed = False\<rparr>, disk)))"

definition file_content :: "fs \<Rightarrow> string \<Rightarrow> string" where
  "file_content disk p = (case disk p of Some (File c) \<Rightarrow> c | _ \<Rightarrow> [])"

text \<open>
  \<^verbatim>\<open>f.write(data)\<close> on an open, writable file: at the end of the file in an append mode,
  at the position otherwise (over what is there, after zero bytes if the position is past
  the end).
\<close>

definition write_at :: "nat \<Rightarrow> string \<Rightarrow> string \<Rightarrow> string" where
  "write_at pos data c =
     take pos c @ replicate (pos - length c) (CHR 0x00) @ data @ drop (pos + length data) c"

definition truncate_at :: "nat \<Rightarrow> string \<Rightarrow> string" where
  "truncate_at pos c = take pos c @ replicate (pos - length c) (CHR 0x00)"

text \<open>
  \<^verbatim>\<open>with open(p, 'r') as f: content = f.read()\<close> and
  \<^verbatim>\<open>with open(p, 'w') as f: f.write(content)\<close>, each opening and closing a file of its
  own.
\<close>

definition read_text :: "string \<Rightarrow> fs \<Rightarrow> exn + string" where
  "read_text p disk =
     (case py_open p ''r'' disk of
        (Inl e, _) \<Rightarrow> Inl e
      | (Inr f, disk') \<Rightarrow> Inr (drop (f_pos f) (file_content disk' p)))"

definition write_text :: "string \<Rightarrow> string \<Rightarrow> fs \<Rightarrow> (exn + unit) \<times> fs" where
  "write_text p content disk =
     (case py_open p ''w'' disk of
        (Inl e, disk') \<Rightarrow> (Inl e, disk')
      | (Inr f, disk') \<Rightarrow>
          (Inr (), disk'(p \<mapsto> File (write_at (f_pos f) content (file_content disk' p)))))"

text \<open>\<^verbatim>\<open>os.path.exists\<close> and \<^verbatim>\<open>os.remove\<close> (which refuses a directory).\<close>

definition path_exists :: "string \<Rightarrow> fs \<Rightarrow> bool" where
  "path_exists p disk \<longleftrightarrow> disk p \<noteq> None"

definition os_remove :: "string \<Rightarrow> fs \<Rightarrow> (exn + unit) \<times> fs" where
  "os_remove p disk =
     (case disk p of
        None \<Rightarrow> (Inl FileNotFoundError, disk)
      | Some Dir \<Rightarrow> (Inl IsADirectoryError, disk)
      | Some (File c) \<Rightarrow> (Inr (), disk(p := None)))"

text \<open>
  \<^verbatim>\<open>touch(path, create_dirs=False)\<close>: opening in mode \<^verbatim>\<open>a\<close> creates a missing file and
  leaves an existing one as it is. The branch for \<^verbatim>\<open>create_dirs\<close> is not modelled.
\<close>

definition touch :: "string \<Rightarrow> fs \<Rightarrow> (exn + unit) \<times> fs" where
  "touch p disk =
     (case py_open p ''a'' disk of
        (Inl e, disk') \<Rightarrow> (Inl e, disk')
      | (Inr f, disk') \<Rightarrow> (Inr (), disk'))"

section \<open>\<^verbatim>\<open>JSONStorage\<close>\<close>

text \<open>
  The fields of a \<^verbatim>\<open>JSONStorage\<close>, with the file system it works on (\<open>disk\<close>) and the
  advisory lock it holds through its lock file (\<open>locked\<close>). \<^verbatim>\<open>_lock_file\<close> is \<^verbatim>\<open>None\<close>
  until the first transaction; the attribute \<^verbatim>\<open>_backup_path\<close> does not exist until
  then. The instance is the one built with the default encoding and no keyword arguments
  for \<^verbatim>\<open>json.dumps\<close>. Other processes are not modelled: \<^verbatim>\<open>flock\<close> never waits.
\<close>

record json_storage = storage +
  mode :: string
  path :: string
  handle :: py_file
  lock_file :: "py_file option"
  backup_path :: "string option"
  locked :: bool
  disk :: fs

text \<open>
  \<^verbatim>\<open>__init__(path, create_dirs=False, encoding=None, access_mode=...)\<close> on a given file
  system. When it raises, the file system it leaves is returned with the exception.
\<close>

definition JSONStorage_init :: "string \<Rightarrow> string \<Rightarrow> fs \<Rightarrow> (exn \<times> fs) + json_storage" where
  "JSONStorage_init p access_mode d =
     (case (if \<exists>ch \<in> set ''+wa''. ch \<in> set access_mode then touch p d else (Inr (), d)) of
        (Inl e, d1) \<Rightarrow> Inl (e, d1)
      | (Inr _, d1) \<Rightarrow>
          (case py_open p access_mode d1 of
             (Inl e, d2) \<Rightarrow> Inl (e, d2)
           | (Inr f, d2) \<Rightarrow>
               Inr \<lparr>in_transaction = False, mode = access_mode, path = p, handle = f,
                    lock_file = None, backup_path = None, locked = False, disk = d2\<rparr>))"

text \<open>The operations on \<^verbatim>\<open>self._handle\<close>. Each raises \<^verbatim>\<open>ValueError\<close> on a closed file.\<close>

definition handle_seek :: "nat \<Rightarrow> (unit, json_storage) action" where
  "handle_seek n s =
     (if f_closed (handle s) then (Inl ValueError, s)
      else (Inr (), s\<lparr>handle := (handle s)\<lparr>f_pos := n\<rparr>\<rparr>))"

definition handle_seek_end :: "(unit, json_storage) action" where
  "handle_seek_end s =
     (if f_closed (handle s) then (Inl ValueError, s)
      else (Inr (), s\<lparr>handle := (handle s)\<lparr>f_pos := length (file_content (disk s) (f_path (handle s)))\<rparr>\<rparr>))"

definition handle_tell :: "(nat, json_storage) action" where
  "handle_tell s =
     (if f_closed (handle s) then (Inl ValueError, s) else (Inr (f_pos (handle s)), s))"

definition handle_read :: "(string, json_storage) action" where
  "handle_read s =
     (let h = handle s; c = file_content (disk s) (f_path h) in
      if f_closed h then (Inl ValueError, s)
      else if \<not> readable (f_mode h) then (Inl UnsupportedOperation, s)
      else (Inr (drop (f_pos h) c), s\<lparr>handle := h\<lparr>f_pos := max (f_pos h) (length c)\<rparr>\<rparr>))"

definition handle_write :: "string \<Rightarrow> (unit, json_storage) action" where
  "handle_write data s =
     (let h = handle s; c = file_content (disk s) (f_path h) in
      if f_closed h then (Inl ValueError, s)
      else if \<not> writable (f_mode h) then (Inl UnsupportedOperation, s)
      else
        (let pos = (if CHR ''a'' \<in> set (f_mode h) then length c else f_pos h)
         in (Inr (), s\<lparr>handle := h\<lparr>f_pos := pos + length data\<rparr>,
                       disk := (disk s)(f_path h \<mapsto> File (write_at pos data c))\<rparr>)))"

definition handle_flush :: "(unit, json_storage) action" where
  "handle_flush s = (if f_closed (handle s) then (Inl ValueError, s) else (Inr (), s))"

text \<open>\<^verbatim>\<open>os.fsync(self._handle.fileno())\<close>\<close>

definition handle_fsync :: "(unit, json_storage) action" where
  "handle_fsync s = (if f_closed (handle s) then (Inl ValueError, s) else (Inr (), s))"

definition handle_truncate :: "(unit, json_storage) action" where
  "handle_truncate s =
     (let h = handle s; c = file_content (disk s) (f_path h) in
      if f_closed h then (Inl ValueError, s)
      else if \<not> writable (f_mode h) then (Inl UnsupportedOperation, s)
      else (Inr (), s\<lparr>disk := (disk s)(f_path h \<mapsto> File (truncate_at (f_pos h) c))\<rparr>))"

definition handle_close :: "(unit, json_storage) action" where
  "handle_close s = (Inr (), s\<lparr>handle := (handle s)\<lparr>f_closed := True\<rparr>\<rparr>)"

text \<open>Library calls as methods on the instance's file system.\<close>

definition raise_or_return :: "exn + 'a \<Rightarrow> ('a, 's) action" where
  "raise_or_return r s = (r, s)"

definition on_disk :: "(fs \<Rightarrow> (exn + 'a) \<times> fs) \<Rightarrow> ('a, json_storage) action" where
  "on_disk f s = (case f (disk s) of (r, d) \<Rightarrow> (r, s\<lparr>disk := d\<rparr>))"

definition JSONStorage_acquire_lock :: "(unit, json_storage) action" where
  "JSONStorage_acquire_lock s =
     and_then
       (\<lambda>s. case lock_file s of
              Some f \<Rightarrow> (Inr (), s)
            | None \<Rightarrow>
                (case py_open (path s @ ''.lock'') ''w'' (disk s) of
                   (Inl e, d) \<Rightarrow> (Inl e, s\<lparr>disk := d\<rparr>)
                 | (Inr f, d) \<Rightarrow> (Inr (), s\<lparr>lock_file := Some f, disk := d\<rparr>)))
       (\<lambda>_ s. (Inr (), s\<lparr>locked := True\<rparr>)) s"

definition JSONStorage_release_lock :: "(unit, json_storage) action" where
  "JSONStorage_release_lock s =
     (case lock_file s of
        None \<Rightarrow> (Inl AttributeError, s)
      | Some f \<Rightarrow> if f_closed f then (Inl ValueError, s) else (Inr (), s\<lparr>locked := False\<rparr>))"

definition get_backup_path :: "(string, json_storage) action" where
  "get_backup_path s =
     (case backup_path s of None \<Rightarrow> (Inl AttributeError, s) | Some b \<Rightarrow> (Inr b, s))"

definition JSONStorage_begin_transaction :: "(unit, json_storage) action" where
  "JSONStorage_begin_transaction =
     and_then (\<lambda>s. (Inr (), s\<lparr>backup_path := Some (path s @ ''.backup'')\<rparr>)) (\<lambda>_.
     and_then JSONStorage_acquire_lock (\<lambda>_.
     and_then (\<lambda>s. (read_text (path s) (disk s), s)) (\<lambda>content.
     and_then get_backup_path (\<lambda>b.
       on_disk (write_text b content)))))"

definition remove_backup :: "(unit, json_storage) action" where
  "remove_backup =
     and_then get_backup_path (\<lambda>b s.
       if path_exists b (disk s) then on_disk (os_remove b) s else (Inr (), s))"

definition JSONStorage_commit_transaction :: "(unit, json_storage) action" where
  "JSONStorage_commit_transaction =
     and_then handle_flush (\<lambda>_.
     and_then handle_fsync (\<lambda>_.
     and_then remove_backup (\<lambda>_.
       JSONStorage_release_lock)))"

definition JSONStorage_rollback_transaction :: "(unit, json_storage) action" where
  "JSONStorage_rollback_transaction =
     try_finally
       (and_then handle_close (\<lambda>_.
        and_then get_backup_path (\<lambda>b.
        and_then (\<lambda>s. (read_text b (disk s), s)) (\<lambda>content.
        and_then (\<lambda>s. on_disk (write_text (path s) content) s) (\<lambda>_ s.
          case py_open (path s) (mode s) (disk s) of
            (Inl e, d) \<Rightarrow> (Inl e, s\<lparr>disk := d\<rparr>)
          | (Inr f, d) \<Rightarrow> (Inr (), s\<lparr>handle := f, disk := d\<rparr>))))))
       (and_then remove_backup (\<lambda>_. JSONStorage_release_lock))"

definition JSONStorage_close :: "(unit, json_storage) action" where
  "JSONStorage_close = handle_close"

text \<open>\<^verbatim>\<open>json.load(self._handle)\<close> is \<^verbatim>\<open>json.loads(self._handle.read())\<close>.\<close>

definition json_load :: "(pyval, json_storage) action" where
  "json_load = and_then handle_read (\<lambda>text. raise_or_return (json_loads text))"

definition JSONStorage_read :: "(pyval, json_storage) action" where
  "JSONStorage_read =
     and_then handle_seek_end (\<lambda>_.
     and_then handle_tell (\<lambda>size.
       if size = 0 then raise_or_return (Inr PNone)
       else and_then (handle_seek 0) (\<lambda>_. json_load)))"

text \<open>
  In \<^verbatim>\<open>write\<close>, only \<^verbatim>\<open>self._handle.write\<close> is inside the \<^verbatim>\<open>try\<close>, and only
  \<^verbatim>\<open>io.UnsupportedOperation\<close> is caught and replaced.
\<close>

definition write_rejected :: "string \<Rightarrow> exn" where
  "write_rejected m = IOError (''Cannot write to the database. Access mode is '' @ [DQ] @ m @ [DQ])"

definition JSONStorage_write :: "pyval \<Rightarrow> (unit, json_storage) action" where
  "JSONStorage_write data =
     and_then (handle_seek 0) (\<lambda>_.
     and_then (raise_or_return (json_dumps data)) (\<lambda>serialized.
     and_then
       (\<lambda>s. case handle_write serialized s of
               (Inl UnsupportedOperation, s') \<Rightarrow> (Inl (write_rejected (mode s')), s')
             | r \<Rightarrow> r) (\<lambda>_.
     and_then handle_flush (\<lambda>_.
     and_then handle_fsync (\<lambda>_.
       handle_truncate)))))"

definition JSONStorage :: "json_storage backend" where
  "JSONStorage =
     \<lparr>begin_transaction = JSONStorage_begin_transaction,
      commit_transaction = JSONStorage_commit_transaction,
      rollback_transaction = JSONStorage_rollback_transaction\<rparr>"

section \<open>Auxiliary notions and example instances\<close>

text \<open>A method that leaves the in-transaction flag as it found it.\<close>

definition keeps_flag :: "('a, 'b storage_scheme) action \<Rightarrow> bool" where
  "keeps_flag m \<longleftrightarrow> (\<forall>s. in_transaction (snd (m s)) = in_transaction s)"

text \<open>A \<^verbatim>\<open>MemoryStorage\<close> that was given a snapshot with an object \<^verbatim>\<open>json\<close> cannot serialise.\<close>

definition unserializable_memory :: memory_storage where
  "unserializable_memory =
     \<lparr>in_transaction = False, memory = PDict [(''t'', PDict [(''1'', PObject 0)])], backup = PNone\<rparr>"

text \<open>
  \<^verbatim>\<open>JSONStorage('db.json')\<close> right after its construction where no file was there, and
  the same instance where the path of its lock file is taken by a directory.
\<close>

definition fresh_json :: json_storage where
  "fresh_json =
     \<lparr>in_transaction = False, mode = ''r+'', path = ''db.json'',
      handle = \<lparr>f_path = ''db.json'', f_mode = ''r+'', f_pos = 0, f_closed = False\<rparr>,
      lock_file = None, backup_path = None, locked = False,
      disk = [''db.json'' \<mapsto> File []]\<rparr>"

definition lock_dir_json :: json_storage where
  "lock_dir_json = fresh_json\<lparr>disk := [''db.json'' \<mapsto> File [], ''db.json.lock'' \<mapsto> Dir]\<rparr>"

text \<open>
  File storages over a file that holds the JSON text \<^verbatim>\<open>null\<close>, over one that holds the
  cut-off text \<^verbatim>\<open>[1,\<close>, a storage opened read-only (\<^verbatim>\<open>access_mode='r'\<close>) and one
  opened write-only (\<^verbatim>\<open>access_mode='w'\<close>) after a write of \<^verbatim>\<open>{}\<close>.
\<close>

definition null_json :: json_storage where
  "null_json = fresh_json\<lparr>disk := [''db.json'' \<mapsto> File ''null'']\<rparr>"

definition truncated_json :: json_storage where
  "truncated_json = fresh_json\<lparr>disk := [''db.json'' \<mapsto> File ''[1,'']\<rparr>"

definition readonly_json :: json_storage where
  "readonly_json =
     \<lparr>in_transaction = False, mode = ''r'', path = ''db.json'',
      handle = \<lparr>f_path = ''db.json'', f_mode = ''r'', f_pos = 0, f_closed = False\<rparr>,
      lock_file = None, backup_path = None, locked = False,
      disk = [''db.json'' \<mapsto> File ''{}'']\<rparr>"

definition writeonly_json :: json_storage where
  "writeonly_json =
     \<lparr>in_transaction = False, mode = ''w'', path = ''db.json'',
      handle = \<lparr>f_path = ''db.json'', f_mode = ''w'', f_pos = 2, f_closed = False\<rparr>,
      lock_file = None, backup_path = None, locked = False,
      disk = [''db.json'' \<mapsto> File ''{}'']\<rparr>"

text \<open>
  Among the modelled values (no float, strings of code points up to 255), those that
  survive \<^verbatim>\<open>json.loads(json.dumps(v))\<close> unchanged: no tuple (it comes back as a list), no
  object that cannot be serialised, no dictionary with a repeated key (a Python dictionary
  has none). \<open>delimited\<close> says that the text after a value starts with a delimiter or is
  empty.
\<close>

fun json_compatible :: "pyval \<Rightarrow> bool" where
  "json_compatible (PList vs) = (\<forall>v \<in> set vs. json_compatible v)"
| "json_compatible (PTuple vs) = False"
| "json_compatible (PDict kvs) =
     (distinct (map fst kvs) \<and> (\<forall>kv \<in> set kvs. json_compatible (snd kv)))"
| "json_compatible (PObject n) = False"
| "json_compatible _ = True"

definition delimited :: "string \<Rightarrow> bool" where
  "delimited rest \<longleftrightarrow>
     (case rest of [] \<Rightarrow> True | c # _ \<Rightarrow> c = CHR '','' \<or> c = CHR '']'' \<or> c = CHR ''}'')"

text \<open>
  A sequence of calls of \<^verbatim>\<open>write\<close>, one per listed snapshot. A call that raises leaves
  the state it reached, and the next call goes on from there.
\<close>

fun MemoryStorage_writes :: "pyval list \<Rightarrow> memory_storage \<Rightarrow> memory_storage" where
  "MemoryStorage_writes [] s = s"
| "MemoryStorage_writes (v # vs) s = MemoryStorage_writes vs (snd (MemoryStorage_write v s))"

fun JSONStorage_writes :: "pyval list \<Rightarrow> json_storage \<Rightarrow> json_storage" where
  "JSONStorage_writes [] s = s"
| "JSONStorage_writes (v # vs) s = JSONStorage_writes vs (snd (JSONStorage_write v s))"

text \<open>
  A file storage with no transaction open, its handle open in mode \<open>m\<close> on the file at
  \<open>p\<close>, which holds \<open>c\<close>; the paths of the lock file and of the backup are free or
  hold regular files.
\<close>

definition idle_file_storage :: "string \<Rightarrow> string \<Rightarrow> string \<Rightarrow> json_storage \<Rightarrow> bool" where
  "idle_file_storage p m c s \<longleftrightarrow>
     \<not> in_transaction s \<and> path s = p \<and> mode s = m
     \<and> f_path (handle s) = p \<and> f_mode (handle s) = m \<and> \<not> f_closed (handle s)
     \<and> disk s p = Some (File c)
     \<and> disk s (p @ ''.lock'') \<noteq> Some Dir \<and> disk s (p @ ''.backup'') \<noteq> Some Dir
     \<and> (case lock_file s of None \<Rightarrow> True | Some f \<Rightarrow> \<not> f_closed f)"

text \<open>
  A file storage inside a transaction that began when the file held \<open>c\<close>: the backup
  holds \<open>c\<close> and the lock file is open.
\<close>

definition rollback_ready :: "string \<Rightarrow> string \<Rightarrow> string \<Rightarrow> json_storage \<Rightarrow> bool" where
  "rollback_ready p m c s \<longleftrightarrow>
     in_transaction s \<and> path s = p \<and> mode s = m \<and> f_path (handle s) = p
     \<and> backup_path s = Some (p @ ''.backup'')
     \<and> disk s (p @ ''.backup'') = Some (File c)
     \<and> (\<exists>c'. disk s p = Some (File c'))
     \<and> (\<exists>f. lock_file s = Some f \<and> \<not> f_closed f)"

text \<open>
  More instances: \<^verbatim>\<open>JSONStorage('db.json')\<close> after \<^verbatim>\<open>write({})\<close>; the same over a file
  with a longer content; \<^verbatim>\<open>JSONStorage('db.json', access_mode='w+')\<close> after
  \<^verbatim>\<open>write({})\<close>; \<^verbatim>\<open>JSONStorage('db.json', access_mode='a+')\<close> over a file that holds
  \<^verbatim>\<open>{}\<close>; a \<^verbatim>\<open>MemoryStorage\<close> that holds a table with one record, and one that holds a
  tuple.
\<close>

definition written_json :: json_storage where
  "written_json =
     fresh_json\<lparr>handle := \<lparr>f_path = ''db.json'', f_mode = ''r+'', f_pos = 2, f_closed = False\<rparr>,
                disk := [''db.json'' \<mapsto> File ''{}'']\<rparr>"

definition wplus_json :: json_storage where
  "wplus_json =
     \<lparr>in_transaction = False, mode = ''w+'', path = ''db.json'',
      handle = \<lparr>f_path = ''db.json'', f_mode = ''w+'', f_pos = 2, f_closed = False\<rparr>,
      lock_file = None, backup_path = None, locked = False,
      disk = [''db.json'' \<mapsto> File ''{}'']\<rparr>"

definition tuple_memory :: memory_storage where
  "tuple_memory = \<lparr>in_transaction = False, memory = PDict [(''t'', PTuple [])], backup = PNone\<rparr>"

definition nested_memory :: memory_storage where
  "nested_memory =
     \<lparr>in_transaction = False, memory = PDict [(''t'', PDict [(''1'', PDict [])])], backup = PNone\<rparr>"

definition long_json :: json_storage where
  "long_json = fresh_json\<lparr>disk := [''db.json'' \<mapsto> File ''[1, 2, 3, 4, 5, 6]'']\<rparr>"

definition append_json :: json_storage where
  "append_json =
     \<lparr>in_transaction = False, mode = ''a+'', path = ''db.json'',
      handle = \<lparr>f_path = ''db.json'', f_mode = ''a+'', f_pos = 2, f_closed = False\<rparr>,
      lock_file = None, backup_path = None, locked = False,
      disk = [''db.json'' \<mapsto> File ''{}'']\<rparr>"

section \<open>Transaction state of the base class\<close>

lemma try_finally_flag:
  "try_finally m (\<lambda>s'. (Inr (), s'\<lparr>in_transaction := False\<rparr>)) s =
     (fst (m s), (snd (m s))\<lparr>in_transaction := False\<rparr>)"
  by (simp add: try_finally_def split: prod.splits)

lemma Storage_begin_open:
  "in_transaction s \<Longrightarrow>
     Storage_begin B s = (Inl (RuntimeError ''Transaction already in progress''), s)"
  by (simp add: Storage_begin_def)

lemma Storage_begin_idle:
  "\<not> in_transaction s \<Longrightarrow>
     Storage_begin B s = begin_transaction B (s\<lparr>in_transaction := True\<rparr>)"
  by (simp add: Storage_begin_def)

lemma Storage_commit_idle:
  "\<not> in_transaction s \<Longrightarrow>
     Storage_commit B s = (Inl (RuntimeError ''No transaction in progress''), s)"
  by (simp add: Storage_commit_def)

lemma Storage_rollback_idle:
  "\<not> in_transaction s \<Longrightarrow>
     Storage_rollback B s = (Inl (RuntimeError ''No transaction in progress''), s)"
  by (simp add: Storage_rollback_def)

lemma Storage_commit_open:
  "in_transaction s \<Longrightarrow>
     Storage_commit B s =
       (fst (commit_transaction B s), (snd (commit_transaction B s))\<lparr>in_transaction := False\<rparr>)"
  by (simp add: Storage_commit_def try_finally_flag)

lemma Storage_rollback_open:
  "in_transaction s \<Longrightarrow>
     Storage_rollback B s =
       (fst (rollback_transaction B s), (snd (rollback_transaction B s))\<lparr>in_transaction := False\<rparr>)"
  by (simp add: Storage_rollback_def try_finally_flag)

text \<open>
  Claim C4. With a transaction open, \<^verbatim>\<open>commit\<close> and \<^verbatim>\<open>rollback\<close> pass on whatever the
  backend's commit or rollback logic does, its return or its exception, and in both cases
  the state they leave has the in-transaction flag cleared.
\<close>

theorem commit_rollback_clear_flag:
  assumes "in_transaction s"
  shows "Storage_commit B s =
           (fst (commit_transaction B s), (snd (commit_transaction B s))\<lparr>in_transaction := False\<rparr>)
       \<and> Storage_rollback B s =
           (fst (rollback_transaction B s), (snd (rollback_transaction B s))\<lparr>in_transaction := False\<rparr>)
       \<and> \<not> in_transaction (snd (Storage_commit B s))
       \<and> \<not> in_transaction (snd (Storage_rollback B s))"
  using assms by (simp add: Storage_commit_open Storage_rollback_open)

text \<open>
  At a \<^verbatim>\<open>JSONStorage\<close> whose handle was closed inside the transaction, the commit logic
  raises \<^verbatim>\<open>ValueError\<close> at \<^verbatim>\<open>flush\<close>; the flag is cleared all the same.
\<close>

theorem commit_rollback_clear_flag_witness:
  "in_transaction
     \<lparr>in_transaction = True, mode = ''r+'', path = ''db.json'',
      handle = \<lparr>f_path = ''db.json'', f_mode = ''r+'', f_pos = 0, f_closed = True\<rparr>,
      lock_file = Some \<lparr>f_path = ''db.json.lock'', f_mode = ''w'', f_pos = 0, f_closed = False\<rparr>,
      backup_path = Some ''db.json.backup'', locked = True,
      disk = [''db.json'' \<mapsto> File [], ''db.json.lock'' \<mapsto> File [], ''db.json.backup'' \<mapsto> File []]\<rparr>
   \<and> fst (Storage_commit JSONStorage
     \<lparr>in_transaction = True, mode = ''r+'', path = ''db.json'',
      handle = \<lparr>f_path = ''db.json'', f_mode = ''r+'', f_pos = 0, f_closed = True\<rparr>,
      lock_file = Some \<lparr>f_path = ''db.json.lock'', f_mode = ''w'', f_pos = 0, f_closed = False\<rparr>,
      backup_path = Some ''db.json.backup'', locked = True,
      disk = [''db.json'' \<mapsto> File [], ''db.json.lock'' \<mapsto> File [], ''db.json.backup'' \<mapsto> File []]\<rparr>)
       = Inl ValueError
   \<and> \<not> in_transaction (snd (Storage_commit JSONStorage
     \<lparr>in_transaction = True, mode = ''r+'', path = ''db.json'',
      handle = \<lparr>f_path = ''db.json'', f_mode = ''r+'', f_pos = 0, f_closed = True\<rparr>,
      lock_file = Some \<lparr>f_path = ''db.json.lock'', f_mode = ''w'', f_pos = 0, f_closed = False\<rparr>,
      backup_path = Some ''db.json.backup'', locked = True,
      disk = [''db.json'' \<mapsto> File [], ''db.json.lock'' \<mapsto> File [], ''db.json.backup'' \<mapsto> File []]\<rparr>))
   \<and> \<not> in_transaction (snd (Storage_rollback JSONStorage
     \<lparr>in_transaction = True, mode = ''r+'', path = ''db.json'',
      handle = \<lparr>f_path = ''db.json'', f_mode = ''r+'', f_pos = 0, f_closed = True\<rparr>,
      lock_file = Some \<lparr>f_path = ''db.json.lock'', f_mode = ''w'', f_pos = 0, f_closed = False\<rparr>,
      backup_path = Some ''db.json.backup'', locked = True,
      disk = [''db.json'' \<mapsto> File [], ''db.json.lock'' \<mapsto> File [], ''db.json.backup'' \<mapsto> File []]\<rparr>))"
  using commit_rollback_clear_flag [of
     "\<lparr>in_transaction = True, mode = ''r+'', path = ''db.json'',
      handle = \<lparr>f_path = ''db.json'', f_mode = ''r+'', f_pos = 0, f_closed = True\<rparr>,
      lock_file = Some \<lparr>f_path = ''db.json.lock'', f_mode = ''w'', f_pos = 0, f_closed = False\<rparr>,
      backup_path = Some ''db.json.backup'', locked = True,
      disk = [''db.json'' \<mapsto> File [], ''db.json.lock'' \<mapsto> File [], ''db.json.backup'' \<mapsto> File []]\<rparr>"
     JSONStorage]
  by (simp add: JSONStorage_def JSONStorage_commit_transaction_def and_then_def handle_flush_def)

text \<open>
  Claim C5. With no transaction open, \<^verbatim>\<open>commit\<close> and \<^verbatim>\<open>rollback\<close> raise
  \<^verbatim>\<open>RuntimeError("No transaction in progress")\<close> and leave the whole state of the
  instance as it was, whatever the backend: none of its logic has run, and the flag and
  the stored snapshot are unchanged.
\<close>

theorem commit_rollback_without_transaction:
  assumes "\<not> in_transaction s"
  shows "Storage_commit B s = (Inl (RuntimeError ''No transaction in progress''), s)
       \<and> Storage_rollback B s = (Inl (RuntimeError ''No transaction in progress''), s)"
  using assms by (simp add: Storage_commit_idle Storage_rollback_idle)

theorem commit_rollback_without_transaction_witness:
  "\<not> in_transaction MemoryStorage_init
   \<and> Storage_commit MemoryStorage MemoryStorage_init =
       (Inl (RuntimeError ''No transaction in progress''), MemoryStorage_init)
   \<and> Storage_rollback MemoryStorage MemoryStorage_init =
       (Inl (RuntimeError ''No transaction in progress''), MemoryStorage_init)"
  using commit_rollback_without_transaction [of MemoryStorage_init MemoryStorage]
  by (simp add: MemoryStorage_init_def)

text \<open>
  Claim C6. With a transaction open, \<^verbatim>\<open>begin\<close> raises
  \<^verbatim>\<open>RuntimeError("Transaction already in progress")\<close> and leaves the whole state of the
  instance (flag, backup, lock) as it was: a second transaction is never opened on top of
  the first.
\<close>

theorem begin_while_open:
  assumes "in_transaction s"
  shows "Storage_begin B s = (Inl (RuntimeError ''Transaction already in progress''), s)"
  using assms by (rule Storage_begin_open)

theorem begin_while_open_witness:
  "in_transaction (snd (Storage_begin MemoryStorage MemoryStorage_init))
   \<and> Storage_begin MemoryStorage (snd (Storage_begin MemoryStorage MemoryStorage_init)) =
       (Inl (RuntimeError ''Transaction already in progress''),
        snd (Storage_begin MemoryStorage MemoryStorage_init))"
proof -
  have open_now: "in_transaction (snd (Storage_begin MemoryStorage MemoryStorage_init))"
    by (simp add: Storage_begin_def MemoryStorage_def MemoryStorage_init_def
        MemoryStorage_begin_transaction_def)
  from begin_while_open [OF open_now, of MemoryStorage] open_now show ?thesis by simp
qed

lemma JSONStorage_init_fresh: "JSONStorage_init ''db.json'' ''r+'' Map.empty = Inr fresh_json"
  by (simp add: JSONStorage_init_def touch_def py_open_def valid_mode_def fresh_json_def)

lemma MemoryStorage_begin_transaction_flag:
  "MemoryStorage_begin_transaction s = (r, s') \<Longrightarrow> in_transaction s' = in_transaction s"
  by (auto simp: MemoryStorage_begin_transaction_def split: if_splits sum.splits)

lemma keeps_flag_and_then:
  "keeps_flag m \<Longrightarrow> (\<And>x. keeps_flag (f x)) \<Longrightarrow> keeps_flag (and_then m f)"
  unfolding keeps_flag_def and_then_def
  by (auto split: prod.splits sum.splits) (metis snd_conv)+

lemma keeps_flag_on_disk: "keeps_flag (on_disk f)"
  by (simp add: keeps_flag_def on_disk_def split: prod.splits)

lemma keeps_flag_get_backup_path: "keeps_flag get_backup_path"
  by (simp add: keeps_flag_def get_backup_path_def split: option.splits)

lemma keeps_flag_acquire_lock: "keeps_flag JSONStorage_acquire_lock"
  by (simp add: keeps_flag_def JSONStorage_acquire_lock_def and_then_def
      split: option.splits prod.splits sum.splits)

lemma keeps_flag_begin_transaction: "keeps_flag JSONStorage_begin_transaction"
  unfolding JSONStorage_begin_transaction_def
  by (intro keeps_flag_and_then keeps_flag_on_disk keeps_flag_get_backup_path
      keeps_flag_acquire_lock) (simp_all add: keeps_flag_def)

lemma JSONStorage_begin_transaction_flag:
  assumes "JSONStorage_begin_transaction s = (r, s')"
  shows "in_transaction s' = in_transaction s"
proof -
  have "in_transaction (snd (JSONStorage_begin_transaction s)) = in_transaction s"
    using keeps_flag_begin_transaction unfolding keeps_flag_def by blast
  with assms show ?thesis by simp
qed

lemma Storage_rollback_flag: "\<not> in_transaction (snd (Storage_rollback B s))"
  by (cases "in_transaction s") (simp_all add: Storage_rollback_open Storage_rollback_idle)

lemma Storage_commit_flag: "\<not> in_transaction (snd (Storage_commit B s))"
  by (cases "in_transaction s") (simp_all add: Storage_commit_open Storage_commit_idle)

section \<open>A failing \<^verbatim>\<open>begin\<close>\<close>

text \<open>
  Claim C10. \<^verbatim>\<open>begin\<close> sets the flag and then runs the backend's start logic, with
  nothing after it. For both storages of the repository: if the start logic raises, \<^verbatim>\<open>begin\<close>
  raises the same exception and leaves the state the start logic left, in which the
  instance is marked as in a transaction; a further \<^verbatim>\<open>begin\<close> then raises
  \<^verbatim>\<open>RuntimeError("Transaction already in progress")\<close> and changes nothing; \<^verbatim>\<open>commit\<close>
  and \<^verbatim>\<open>rollback\<close> are what clears the flag again.
\<close>

theorem begin_failure_keeps_flag:
  "(\<not> in_transaction m \<and> MemoryStorage_begin_transaction (m\<lparr>in_transaction := True\<rparr>) = (Inl e, m') \<longrightarrow>
      Storage_begin MemoryStorage m = (Inl e, m') \<and> in_transaction m'
      \<and> Storage_begin MemoryStorage m' = (Inl (RuntimeError ''Transaction already in progress''), m')
      \<and> \<not> in_transaction (snd (Storage_commit MemoryStorage m'))
      \<and> \<not> in_transaction (snd (Storage_rollback MemoryStorage m')))
 \<and> (\<not> in_transaction j \<and> JSONStorage_begin_transaction (j\<lparr>in_transaction := True\<rparr>) = (Inl e', j') \<longrightarrow>
      Storage_begin JSONStorage j = (Inl e', j') \<and> in_transaction j'
      \<and> Storage_begin JSONStorage j' = (Inl (RuntimeError ''Transaction already in progress''), j')
      \<and> \<not> in_transaction (snd (Storage_commit JSONStorage j'))
      \<and> \<not> in_transaction (snd (Storage_rollback JSONStorage j')))"
proof (intro conjI impI)
  assume a: "\<not> in_transaction m \<and> MemoryStorage_begin_transaction (m\<lparr>in_transaction := True\<rparr>) = (Inl e, m')"
  then show "Storage_begin MemoryStorage m = (Inl e, m')"
    by (simp add: Storage_begin_idle MemoryStorage_def)
  from a show m': "in_transaction m'"
    using MemoryStorage_begin_transaction_flag [of "m\<lparr>in_transaction := True\<rparr>" "Inl e" m'] by simp
  from m' show "Storage_begin MemoryStorage m' = (Inl (RuntimeError ''Transaction already in progress''), m')"
    by (rule Storage_begin_open)
next
  assume a: "\<not> in_transaction j \<and> JSONStorage_begin_transaction (j\<lparr>in_transaction := True\<rparr>) = (Inl e', j')"
  then show "Storage_begin JSONStorage j = (Inl e', j')"
    by (simp add: Storage_begin_idle JSONStorage_def)
  from a show j': "in_transaction j'"
    using JSONStorage_begin_transaction_flag [of "j\<lparr>in_transaction := True\<rparr>" "Inl e'" j'] by simp
  from j' show "Storage_begin JSONStorage j' = (Inl (RuntimeError ''Transaction already in progress''), j')"
    by (rule Storage_begin_open)
qed (rule Storage_commit_flag Storage_rollback_flag)+

text \<open>
  The memory storage fails to copy a snapshot that holds a non-serialisable object
  (\<^verbatim>\<open>TypeError\<close>); the file storage fails to open its lock file where that path is a
  directory (\<^verbatim>\<open>IsADirectoryError\<close>).
\<close>

theorem begin_failure_keeps_flag_witness:
  "(\<not> in_transaction unserializable_memory
    \<and> MemoryStorage_begin_transaction (unserializable_memory\<lparr>in_transaction := True\<rparr>) =
        (Inl TypeError, unserializable_memory\<lparr>in_transaction := True\<rparr>))
   \<and> Storage_begin MemoryStorage unserializable_memory =
        (Inl TypeError, unserializable_memory\<lparr>in_transaction := True\<rparr>)
   \<and> Storage_begin MemoryStorage (unserializable_memory\<lparr>in_transaction := True\<rparr>) =
        (Inl (RuntimeError ''Transaction already in progress''),
         unserializable_memory\<lparr>in_transaction := True\<rparr>)
   \<and> (\<not> in_transaction lock_dir_json
    \<and> JSONStorage_begin_transaction (lock_dir_json\<lparr>in_transaction := True\<rparr>) =
        (Inl IsADirectoryError,
         lock_dir_json\<lparr>in_transaction := True, backup_path := Some ''db.json.backup''\<rparr>))
   \<and> Storage_begin JSONStorage lock_dir_json =
        (Inl IsADirectoryError,
         lock_dir_json\<lparr>in_transaction := True, backup_path := Some ''db.json.backup''\<rparr>)
   \<and> Storage_begin JSONStorage
        (lock_dir_json\<lparr>in_transaction := True, backup_path := Some ''db.json.backup''\<rparr>) =
        (Inl (RuntimeError ''Transaction already in progress''),
         lock_dir_json\<lparr>in_transaction := True, backup_path := Some ''db.json.backup''\<rparr>)"
proof -
  have m: "\<not> in_transaction unserializable_memory
    \<and> MemoryStorage_begin_transaction (unserializable_memory\<lparr>in_transaction := True\<rparr>) =
        (Inl TypeError, unserializable_memory\<lparr>in_transaction := True\<rparr>)"
    by (simp add: unserializable_memory_def MemoryStorage_begin_transaction_def json_dumps_def)
  have j: "\<not> in_transaction lock_dir_json
    \<and> JSONStorage_begin_transaction (lock_dir_json\<lparr>in_transaction := True\<rparr>) =
        (Inl IsADirectoryError,
         lock_dir_json\<lparr>in_transaction := True, backup_path := Some ''db.json.backup''\<rparr>)"
    by (simp add: lock_dir_json_def fresh_json_def JSONStorage_begin_transaction_def and_then_def
        JSONStorage_acquire_lock_def py_open_def valid_mode_def)
  from m j begin_failure_keeps_flag [of unserializable_memory TypeError
      "unserializable_memory\<lparr>in_transaction := True\<rparr>" lock_dir_json IsADirectoryError
      "lock_dir_json\<lparr>in_transaction := True, backup_path := Some ''db.json.backup''\<rparr>"]
  show ?thesis by blast
qed

section \<open>The transaction scope\<close>

text \<open>
  What the scope does on each path up to \<^verbatim>\<open>commit\<close>: an error of \<^verbatim>\<open>begin\<close> is raised
  before the block runs; the scope commits when the block returns; when the block raises,
  it rolls back and, if the rollback returns, re-raises the block's error as it is; an
  exception of that rollback propagates in its place.
\<close>

lemma Storage_transaction_paths:
  "(Storage_begin B s = (Inl e, s1) \<longrightarrow> Storage_transaction B block s = (Inl e, s1))
 \<and> (Storage_begin B s = (Inr (), s1) \<and> block s1 = (Inr (), s2) \<and> Storage_commit B s2 = (Inr (), s3) \<longrightarrow>
      Storage_transaction B block s = (Inr (), s3))
 \<and> (Storage_begin B s = (Inr (), s1) \<and> block s1 = (Inl e, s2) \<and> Storage_rollback B s2 = (Inr (), s3) \<longrightarrow>
      Storage_transaction B block s = (Inl e, s3))
 \<and> (Storage_begin B s = (Inr (), s1) \<and> block s1 = (Inl e, s2) \<and> Storage_rollback B s2 = (Inl e', s3) \<longrightarrow>
      Storage_transaction B block s = (Inl e', s3))"
  by (simp add: Storage_transaction_def and_then_def)

text \<open>
  An exception of \<^verbatim>\<open>commit\<close> reaches the \<^verbatim>\<open>except:\<close> branch after the \<^verbatim>\<open>finally\<close> of
  \<^verbatim>\<open>commit\<close> has cleared the flag: the \<^verbatim>\<open>rollback\<close> there raises at its own flag check,
  before any rollback logic, and the \<^verbatim>\<open>raise\<close> that would re-raise the error of
  \<^verbatim>\<open>commit\<close> is not reached.
\<close>

lemma Storage_transaction_commit_raises:
  assumes "Storage_begin B s = (Inr (), s1)" and "block s1 = (Inr (), s2)"
    and "Storage_commit B s2 = (Inl e, s3)"
  shows "Storage_transaction B block s = (Inl (RuntimeError ''No transaction in progress''), s3)"
proof -
  from assms(3) have "\<not> in_transaction s3" using Storage_commit_flag [of B s2] by simp
  then have "Storage_rollback B s3 = (Inl (RuntimeError ''No transaction in progress''), s3)"
    by (rule Storage_rollback_idle)
  with assms show ?thesis
    by (simp add: Storage_transaction_def and_then_def)
qed

text \<open>
  Claim C3. The claim, that on any error raised inside the scope the helper rolls back
  and re-raises that error untouched, never replaced by another, fails on the code at
  \<^verbatim>\<open>s = JSONStorage('db.json'); with s.transaction(): s.close()\<close>. The \<^verbatim>\<open>commit\<close> of the
  scope raises \<^verbatim>\<open>ValueError\<close> at \<^verbatim>\<open>flush\<close> on the closed handle; the \<^verbatim>\<open>except:\<close>
  branch, written to roll back and re-raise, gives the caller
  \<^verbatim>\<open>RuntimeError("No transaction in progress")\<close> instead, and nothing is rolled back: the
  lock is still held and the backup file is still there.
\<close>

theorem transaction_scope_replaces_commit_error:
  "fst (Storage_commit JSONStorage
          (snd (JSONStorage_close (snd (Storage_begin JSONStorage fresh_json))))) = Inl ValueError
   \<and> fst (Storage_transaction JSONStorage JSONStorage_close fresh_json) =
       Inl (RuntimeError ''No transaction in progress'')
   \<and> locked (snd (Storage_transaction JSONStorage JSONStorage_close fresh_json))
   \<and> disk (snd (Storage_transaction JSONStorage JSONStorage_close fresh_json)) ''db.json.backup'' =
       Some (File [])"
  by (simp add: Storage_transaction_def and_then_def
      Storage_begin_def Storage_rollback_def Storage_commit_def try_finally_def
      JSONStorage_def fresh_json_def JSONStorage_close_def handle_close_def
      JSONStorage_begin_transaction_def JSONStorage_acquire_lock_def py_open_def valid_mode_def
      read_text_def write_text_def file_content_def write_at_def get_backup_path_def on_disk_def
      JSONStorage_commit_transaction_def handle_flush_def)

section \<open>\<^verbatim>\<open>__enter__\<close> and \<^verbatim>\<open>__exit__\<close>\<close>

text \<open>
  \<^verbatim>\<open>__exit__\<close> without an exception never returns: it raises the error of \<^verbatim>\<open>begin\<close>,
  the error of the closing rollback, or \<^verbatim>\<open>RuntimeError("generator didn't stop")\<close>. While
  a transaction is open it raises the transaction-state error of \<^verbatim>\<open>begin\<close> and changes
  nothing. Where the scope of \<^verbatim>\<open>__enter__\<close> is reclaimed at once, the transaction that
  \<^verbatim>\<open>__enter__\<close> began is rolled back before \<^verbatim>\<open>__enter__\<close> returns.
\<close>

lemma Storage_exit_raises: "fst (Storage_exit B None s) \<noteq> Inr b"
  by (simp add: Storage_exit_def split: prod.splits sum.splits)

lemma Storage_exit_open:
  "in_transaction s \<Longrightarrow>
     Storage_exit B None s = (Inl (RuntimeError ''Transaction already in progress''), s)"
  by (simp add: Storage_exit_def Storage_begin_open)

lemma Storage_exit_exception: "Storage_exit B (Some e) s = (Inr False, s)"
  by (simp add: Storage_exit_def)

lemma Storage_enter_reclaimed:
  assumes "Storage_begin B s = (Inr (), s1)"
  shows "Storage_enter Refcounting B s = (Inr (), snd (Storage_rollback B s1))"
    and "\<not> in_transaction (snd (Storage_enter Refcounting B s))"
  using assms
  by (simp_all add: Storage_enter_def reclaim_def generator_close_def Storage_rollback_flag)

text \<open>
  Claim C9. \<^verbatim>\<open>__enter__\<close> and \<^verbatim>\<open>__exit__\<close>, documented as the support for the context
  manager protocol and as handling the completion of the transaction, each build a scope of
  their own. At
  \<^verbatim>\<open>s = MemoryStorage(); s.__enter__(); s.write({'t': {}}); s.__exit__(None, None, None)\<close>,
  where the scope of \<^verbatim>\<open>__enter__\<close> is reclaimed at once, as on CPython, \<^verbatim>\<open>__enter__\<close>
  returns with no transaction open (the one it began is rolled back), and \<^verbatim>\<open>__exit__\<close>
  begins another, rolls it back and raises \<^verbatim>\<open>RuntimeError("generator didn't stop")\<close>;
  where the scope of \<^verbatim>\<open>__enter__\<close> is still alive, \<^verbatim>\<open>__exit__\<close> raises
  \<^verbatim>\<open>RuntimeError("Transaction already in progress")\<close> and leaves the transaction open.
  Either way \<^verbatim>\<open>with s:\<close> raises on a block that returned and commits nothing, unlike
  \<^verbatim>\<open>with s.transaction():\<close>.
\<close>

theorem enter_write_exit:
  "Storage_enter Refcounting MemoryStorage MemoryStorage_init = (Inr (), MemoryStorage_init)
   \<and> Storage_exit MemoryStorage None
        (snd (MemoryStorage_write (PDict [(''t'', PDict [])])
           (snd (Storage_enter Refcounting MemoryStorage MemoryStorage_init)))) =
       (Inl (RuntimeError ''generator didn't stop''),
        \<lparr>in_transaction = False, memory = PDict [(''t'', PDict [])], backup = PNone\<rparr>)
   \<and> Storage_exit MemoryStorage None
        (snd (MemoryStorage_write (PDict [(''t'', PDict [])])
           (snd (Storage_enter Deferred MemoryStorage MemoryStorage_init)))) =
       (Inl (RuntimeError ''Transaction already in progress''),
        \<lparr>in_transaction = True, memory = PDict [(''t'', PDict [])], backup = PNone\<rparr>)"
  by code_simp

section \<open>Reading and writing the file\<close>

lemma JSONStorage_init_readonly:
  "JSONStorage_init ''db.json'' ''r'' [''db.json'' \<mapsto> File ''{}''] = Inr readonly_json"
  by (simp add: JSONStorage_init_def py_open_def valid_mode_def readonly_json_def)

lemma JSONStorage_read_fst:
  assumes "\<not> f_closed (handle s)"
  shows "fst (JSONStorage_read s) =
     (let c = file_content (disk s) (f_path (handle s)) in
      if c = [] then Inr PNone
      else if \<not> readable (f_mode (handle s)) then Inl UnsupportedOperation
      else json_loads c)"
  using assms
  by (simp add: JSONStorage_read_def and_then_def handle_seek_end_def handle_tell_def
      handle_seek_def json_load_def handle_read_def raise_or_return_def Let_def)

lemma JSONStorage_read_disk: "disk (snd (JSONStorage_read s)) = disk s"
  by (simp add: JSONStorage_read_def and_then_def handle_seek_end_def handle_tell_def
      handle_seek_def json_load_def handle_read_def raise_or_return_def Let_def)

lemma JSONStorage_read_closed:
  "f_closed (handle s) \<Longrightarrow> JSONStorage_read s = (Inl ValueError, s)"
  by (simp add: JSONStorage_read_def and_then_def handle_seek_end_def)

lemma loads_null: "json_loads ''null'' = Inr PNone"
  by code_simp

lemma loads_trunc: "json_loads ''[1,'' = Inl JSONDecodeError"
  by code_simp

text \<open>
  Claim C7, amended. For a file storage whose handle is open: \<^verbatim>\<open>read\<close> returns \<^verbatim>\<open>None\<close>
  without raising when the file is empty. When the file is not empty and the handle is
  readable, \<^verbatim>\<open>read\<close> gives what \<^verbatim>\<open>json.loads\<close> gives on the whole content, wherever the
  position was: the value, or the exception on malformed content. So it returns \<^verbatim>\<open>None\<close>
  exactly when the file is empty or its content deserialises to \<^verbatim>\<open>None\<close>. On a handle
  that is not readable, a non-empty file makes \<^verbatim>\<open>read\<close> raise
  \<^verbatim>\<open>io.UnsupportedOperation\<close>. The file is left as it was.
\<close>

theorem read_empty_or_deserialize:
  assumes "\<not> f_closed (handle s)" and "disk s (f_path (handle s)) = Some (File c)"
  shows "(c = [] \<longrightarrow> fst (JSONStorage_read s) = Inr PNone)
       \<and> (c \<noteq> [] \<and> readable (f_mode (handle s)) \<longrightarrow> fst (JSONStorage_read s) = json_loads c)
       \<and> (c \<noteq> [] \<and> \<not> readable (f_mode (handle s)) \<longrightarrow> fst (JSONStorage_read s) = Inl UnsupportedOperation)
       \<and> (readable (f_mode (handle s)) \<longrightarrow>
            (fst (JSONStorage_read s) = Inr PNone \<longleftrightarrow> c = [] \<or> json_loads c = Inr PNone))
       \<and> disk (snd (JSONStorage_read s)) = disk s"
proof -
  from assms(2) have "file_content (disk s) (f_path (handle s)) = c"
    by (simp add: file_content_def)
  with assms(1) show ?thesis
    by (simp add: JSONStorage_read_fst JSONStorage_read_disk)
qed

theorem read_empty_or_deserialize_witness:
  "fst (JSONStorage_read fresh_json) = Inr PNone
   \<and> fst (JSONStorage_read truncated_json) = Inl JSONDecodeError
   \<and> fst (JSONStorage_read writeonly_json) = Inl UnsupportedOperation
   \<and> fst (JSONStorage_read null_json) = Inr PNone
   \<and> json_loads ''null'' = Inr PNone"
proof -
  have f: "\<not> f_closed (handle fresh_json)" "disk fresh_json (f_path (handle fresh_json)) = Some (File [])"
    by (simp_all add: fresh_json_def)
  have t: "\<not> f_closed (handle truncated_json)"
    "disk truncated_json (f_path (handle truncated_json)) = Some (File ''[1,'')"
    "readable (f_mode (handle truncated_json))"
    by (simp_all add: truncated_json_def fresh_json_def readable_def)
  have w: "\<not> f_closed (handle writeonly_json)"
    "disk writeonly_json (f_path (handle writeonly_json)) = Some (File ''{}'')"
    "\<not> readable (f_mode (handle writeonly_json))"
    by (simp_all add: writeonly_json_def readable_def)
  have n: "\<not> f_closed (handle null_json)"
    "disk null_json (f_path (handle null_json)) = Some (File ''null'')"
    "readable (f_mode (handle null_json))"
    by (simp_all add: null_json_def fresh_json_def readable_def)
  from read_empty_or_deserialize [OF f]
  have "fst (JSONStorage_read fresh_json) = Inr PNone" by simp
  moreover from read_empty_or_deserialize [OF t(1,2)] t(3) loads_trunc
  have "fst (JSONStorage_read truncated_json) = Inl JSONDecodeError" by simp
  moreover from read_empty_or_deserialize [OF w(1,2)] w(3)
  have "fst (JSONStorage_read writeonly_json) = Inl UnsupportedOperation" by simp
  moreover from read_empty_or_deserialize [OF n(1,2)] n(3) loads_null
  have "fst (JSONStorage_read null_json) = Inr PNone" by simp
  ultimately show ?thesis using loads_null by simp
qed

text \<open>
  Against C7 as stated ("exactly when the file is empty"): a file of four bytes, the JSON
  text \<^verbatim>\<open>null\<close>, which \<^verbatim>\<open>write(None)\<close> produces, is read as \<^verbatim>\<open>None\<close>.
\<close>

theorem read_none_on_nonempty_file:
  "disk null_json (f_path (handle null_json)) = Some (File ''null'')
   \<and> fst (JSONStorage_read null_json) = Inr PNone"
  by (simp add: null_json_def fresh_json_def JSONStorage_read_fst file_content_def readable_def loads_null)

lemma handle_write_rejected:
  "\<not> f_closed (handle s) \<Longrightarrow> \<not> writable (f_mode (handle s)) \<Longrightarrow>
     handle_write text s = (Inl UnsupportedOperation, s)"
  by (simp add: handle_write_def Let_def)

text \<open>
  Claim C8. On a file storage opened in a mode that does not allow writing, \<^verbatim>\<open>write\<close> of
  a serialisable snapshot raises the \<^verbatim>\<open>IOError\<close> built in the \<^verbatim>\<open>except\<close> branch; the
  only change to the instance is the position of the handle, set by \<^verbatim>\<open>seek(0)\<close>; the
  file system, and what \<^verbatim>\<open>read\<close> returns, are unchanged.
\<close>

theorem write_rejected_read_only:
  assumes "\<not> f_closed (handle s)" and "\<not> writable (f_mode (handle s))" and "serializable data"
  shows "JSONStorage_write data s =
           (Inl (write_rejected (mode s)), s\<lparr>handle := (handle s)\<lparr>f_pos := 0\<rparr>\<rparr>)
       \<and> disk (snd (JSONStorage_write data s)) = disk s
       \<and> fst (JSONStorage_read (snd (JSONStorage_write data s))) = fst (JSONStorage_read s)"
proof -
  from assms have w: "JSONStorage_write data s =
      (Inl (write_rejected (mode s)), s\<lparr>handle := (handle s)\<lparr>f_pos := 0\<rparr>\<rparr>)"
    by (simp add: JSONStorage_write_def and_then_def handle_seek_def raise_or_return_def
        json_dumps_def handle_write_rejected)
  moreover from assms(1) have "fst (JSONStorage_read (s\<lparr>handle := (handle s)\<lparr>f_pos := 0\<rparr>\<rparr>)) =
      fst (JSONStorage_read s)"
    by (simp add: JSONStorage_read_fst Let_def)
  ultimately show ?thesis by simp
qed

theorem write_rejected_read_only_witness:
  "\<not> f_closed (handle readonly_json) \<and> \<not> writable (f_mode (handle readonly_json))
   \<and> serializable (PDict [(''t'', PDict [])])
   \<and> JSONStorage_write (PDict [(''t'', PDict [])]) readonly_json =
       (Inl (IOError (''Cannot write to the database. Access mode is '' @ [DQ] @ ''r'' @ [DQ])), readonly_json)
   \<and> fst (JSONStorage_read readonly_json) = Inr (PDict [])"
proof -
  have h: "\<not> f_closed (handle readonly_json)" "\<not> writable (f_mode (handle readonly_json))"
    "serializable (PDict [(''t'', PDict [])])"
    by (simp_all add: readonly_json_def writable_def)
  have r: "fst (JSONStorage_read readonly_json) = Inr (PDict [])"
    by code_simp
  have e: "readonly_json\<lparr>handle := (handle readonly_json)\<lparr>f_pos := 0\<rparr>\<rparr> = readonly_json"
    by (simp add: readonly_json_def)
  from write_rejected_read_only [OF h] h r e show ?thesis
    by (simp add: write_rejected_def readonly_json_def)
qed

section \<open>\<^verbatim>\<open>json.loads\<close> inverts \<^verbatim>\<open>json.dumps\<close>\<close>

subsection \<open>Strings\<close>

lemma hex_val_hex_digit_upto: "\<forall>k \<in> set [0..<16]. hex_val (hex_digit k) = Some k"
  by code_simp

lemma hex_val_hex_digit: "k < 16 \<Longrightarrow> hex_val (hex_digit k) = Some k"
  using hex_val_hex_digit_upto by simp

lemma decode_escape:
  "decode_uXXXX (CHR ''0'') (CHR ''0'') (hex_digit ((of_char c :: nat) div 16)) (hex_digit ((of_char c :: nat) mod 16))
     = Some (of_char c)"
proof -
  have "(of_char c :: nat) div 16 < 16"
    using nat_of_char_less_256 [of c] by arith
  moreover have "(of_char c :: nat) mod 16 < 16" by simp
  moreover have "hex_val (CHR ''0'') = Some 0" by (simp add: hex_val_def)
  ultimately show ?thesis
    by (simp add: decode_uXXXX_def hex_val_hex_digit)
qed

lemma scanstring_escape_char:
  "scanstring (escape_char c @ e # r) = pcons c (scanstring (e # r))"
proof -
  have lt: "(of_char c :: nat) < 256" by (rule nat_of_char_less_256)
  consider (dq) "c = DQ" | (bs) "c = BSL" | (b) "c = CHR 0x08" | (f) "c = CHR 0x0C"
    | (n) "c = CHR 0x0A" | (r) "c = CHR 0x0D" | (t) "c = CHR 0x09"
    | (plain) "c \<noteq> DQ" "c \<noteq> BSL" "c \<noteq> CHR 0x08" "c \<noteq> CHR 0x0C" "c \<noteq> CHR 0x0A"
        "c \<noteq> CHR 0x0D" "c \<noteq> CHR 0x09" "0x20 \<le> (of_char c :: nat)" "(of_char c :: nat) \<le> 0x7E"
    | (other) "c \<noteq> DQ" "c \<noteq> BSL" "c \<noteq> CHR 0x08" "c \<noteq> CHR 0x0C" "c \<noteq> CHR 0x0A"
        "c \<noteq> CHR 0x0D" "c \<noteq> CHR 0x09" "\<not> (0x20 \<le> (of_char c :: nat) \<and> (of_char c :: nat) \<le> 0x7E)"
    by blast
  then show ?thesis
  proof cases
    case plain
    then show ?thesis by (simp add: escape_char_def)
  next
    case other
    then show ?thesis using lt by (simp add: escape_char_def decode_escape)
  qed (simp_all add: escape_char_def unescape_def)
qed

lemma scanstring_escaped:
  "scanstring (concat (map escape_char s) @ DQ # rest) = Parsed s rest"
proof (induction s)
  case Nil
  show ?case by (cases rest) simp_all
next
  case (Cons c s)
  have "concat (map escape_char s) @ DQ # rest \<noteq> []" by simp
  then obtain e r where er: "concat (map escape_char s) @ DQ # rest = e # r"
    by (cases "concat (map escape_char s) @ DQ # rest") auto
  then show ?case using Cons.IH scanstring_escape_char [of c e r]
    by (simp add: pcons_def)
qed

lemma scanstring_encode_str:
  "scanstring (tl (encode_str s) @ rest) = Parsed s rest"
  using scanstring_escaped [of s rest] by (simp add: encode_str_def)

subsection \<open>Integers\<close>

lemma digit_char_upto:
  "\<forall>n \<in> set [0..<10]. is_digit (digit_char n) \<and> digit_val (digit_char n) = n
      \<and> (digit_char n = CHR ''0'' \<longleftrightarrow> n = 0)"
  by code_simp

lemma digit_char_props:
  assumes "n < 10"
  shows "is_digit (digit_char n)" and "digit_val (digit_char n) = n"
    and "digit_char n = CHR ''0'' \<longleftrightarrow> n = 0"
  using digit_char_upto assms by simp_all

lemma encode_nat_digits: "\<forall>c \<in> set (encode_nat n). is_digit c"
proof (induction n rule: encode_nat.induct)
  case (1 n)
  show ?case
  proof (cases "n < 10")
    case True
    then show ?thesis by (simp add: encode_nat.simps [of n] digit_char_props)
  next
    case False
    have "n mod 10 < 10" by simp
    with False 1 show ?thesis
      by (simp add: encode_nat.simps [of n] digit_char_props)
  qed
qed

lemma encode_nat_value: "foldl (\<lambda>a d. a * 10 + digit_val d) 0 (encode_nat n) = n"
proof (induction n rule: encode_nat.induct)
  case (1 n)
  show ?case
  proof (cases "n < 10")
    case True
    then show ?thesis by (simp add: encode_nat.simps [of n] digit_char_props)
  next
    case False
    have "n mod 10 < 10" by simp
    with False 1 show ?thesis
      by (simp add: encode_nat.simps [of n] digit_char_props)
  qed
qed

lemma encode_nat_head:
  "encode_nat n = c # r \<Longrightarrow> is_digit c \<and> (c = CHR ''0'' \<longrightarrow> n = 0 \<and> r = [])"
proof (induction n arbitrary: c r rule: encode_nat.induct)
  case (1 n)
  show ?case
  proof (cases "n < 10")
    case True
    with "1.prems" show ?thesis by (auto simp: encode_nat.simps [of n] digit_char_props)
  next
    case False
    obtain c' r' where e: "encode_nat (n div 10) = c' # r'"
      by (cases "encode_nat (n div 10)") (simp_all add: encode_nat.simps [of "n div 10"] split: if_splits)
    from False have nz: "n div 10 \<noteq> 0" by simp
    from "1.IH" [OF False e] nz have c': "is_digit c'" "c' \<noteq> CHR ''0''" by auto
    from "1.prems" False e have "c = c'" by (simp add: encode_nat.simps [of n])
    with c' show ?thesis by simp
  qed
qed

lemma encode_nat_nonempty: "encode_nat n \<noteq> []"
  by (simp add: encode_nat.simps [of n])

lemma scan_digits_all:
  assumes "\<forall>c \<in> set ds. is_digit c" and "rest = [] \<or> \<not> is_digit (hd rest)"
  shows "scan_digits (ds @ rest) acc = (foldl (\<lambda>a d. a * 10 + digit_val d) acc ds, rest)"
  using assms
proof (induction ds arbitrary: acc)
  case Nil
  then show ?case by (cases rest) simp_all
next
  case (Cons d ds)
  then show ?case by simp
qed

lemma scan_int_encode_nat:
  assumes "rest = [] \<or> \<not> is_digit (hd rest)"
  shows "scan_int (encode_nat n @ rest) = Some (n, rest)"
proof -
  obtain c r where e: "encode_nat n = c # r"
    using encode_nat_nonempty [of n] by (cases "encode_nat n") auto
  from encode_nat_head [OF e] have c: "is_digit c" "c = CHR ''0'' \<Longrightarrow> n = 0 \<and> r = []" by auto
  from encode_nat_digits [of n] e have r: "\<forall>c \<in> set r. is_digit c" by simp
  from encode_nat_value [of n] e
  have v: "foldl (\<lambda>a d. a * 10 + digit_val d) (digit_val c) r = n" by simp
  show ?thesis
  proof (cases "c = CHR ''0''")
    case True
    with c e show ?thesis by (simp add: scan_int_def)
  next
    case False
    with c e v show ?thesis
      by (simp add: scan_int_def scan_digits_all [OF r assms])
  qed
qed

lemma delimited_no_number:
  "delimited rest \<Longrightarrow> (rest = [] \<or> \<not> is_digit (hd rest)) \<and> \<not> float_follows rest"
  by (cases rest) (auto simp: delimited_def float_follows_def is_digit_def)

lemma scan_number_encode_int:
  assumes "delimited rest"
  shows "scan_number (encode_int i @ rest) = Parsed (PInt i) rest"
proof -
  from delimited_no_number [OF assms]
  have d: "rest = [] \<or> \<not> is_digit (hd rest)" and f: "\<not> float_follows rest" by simp_all
  show ?thesis
  proof (cases "i < 0")
    case True
    with f show ?thesis
      by (simp add: scan_number_def encode_int_def scan_int_encode_nat [OF d])
  next
    case False
    obtain c r where e: "encode_nat (nat i) = c # r"
      using encode_nat_nonempty [of "nat i"] by (cases "encode_nat (nat i)") auto
    from encode_nat_head [OF e] have "c \<noteq> CHR ''-''" by (auto simp: is_digit_def)
    with False f e scan_int_encode_nat [OF d, of "nat i"] show ?thesis
      by (simp add: scan_number_def encode_int_def)
  qed
qed

lemma encode_int_head:
  "\<exists>c r. encode_int i = c # r \<and> (c = CHR ''-'' \<or> is_digit c)"
proof (cases "i < 0")
  case True
  then show ?thesis by (simp add: encode_int_def)
next
  case False
  obtain c r where e: "encode_nat (nat i) = c # r"
    using encode_nat_nonempty [of "nat i"] by (cases "encode_nat (nat i)") auto
  with encode_nat_head [OF e] False show ?thesis by (simp add: encode_int_def)
qed

lemma parse_value_encode_int:
  assumes "delimited rest"
  shows "parse_value (Suc n) (encode_int i @ rest) = Parsed (PInt i) rest"
proof -
  obtain c r where e: "encode_int i = c # r" and c: "c = CHR ''-'' \<or> is_digit c"
    using encode_int_head [of i] by blast
  from c have "c \<noteq> DQ" "c \<noteq> CHR ''{''" "c \<noteq> CHR ''[''" "c \<noteq> CHR ''n''" "c \<noteq> CHR ''t''" "c \<noteq> CHR ''f''"
    by (auto simp: is_digit_def)
  then have "parse_value (Suc n) (c # r @ rest) = scan_number (c # r @ rest)"
    by simp
  with e scan_number_encode_int [OF assms, of i] show ?thesis by simp
qed

subsection \<open>Values\<close>

lemma skip_ws_non_ws: "\<not> is_ws c \<Longrightarrow> skip_ws (c # r) = c # r"
  by (simp add: skip_ws_def)

lemma skip_ws_space: "skip_ws (CHR '' '' # r) = skip_ws r"
  by (simp add: skip_ws_def is_ws_def)

lemma encode_str_head: "encode_str k = DQ # tl (encode_str k)"
  by (simp add: encode_str_def)

lemma encode_head:
  "json_compatible v \<Longrightarrow> \<exists>c r. encode v = c # r \<and> \<not> is_ws c \<and> c \<noteq> CHR '']''"
proof (cases v)
  case (PInt i)
  obtain c r where "encode_int i = c # r" "c = CHR ''-'' \<or> is_digit c"
    using encode_int_head [of i] by blast
  with PInt show ?thesis by (auto simp: is_ws_def is_digit_def)
next
  case (PStr s)
  then show ?thesis by (simp add: encode_str_def is_ws_def)
qed (simp_all add: is_ws_def)

lemma encode_elems_head:
  assumes "vs \<noteq> []" and "\<forall>v \<in> set vs. json_compatible v"
  shows "\<exists>c r. encode_elems vs = c # r \<and> \<not> is_ws c \<and> c \<noteq> CHR '']''"
proof -
  from assms obtain v ws where vs: "vs = v # ws" and v: "json_compatible v"
    by (cases vs) auto
  from encode_head [OF v] obtain c r where "encode v = c # r" "\<not> is_ws c" "c \<noteq> CHR '']''"
    by blast
  with vs show ?thesis by (cases ws) auto
qed

lemma encode_members_head:
  "kvs \<noteq> [] \<Longrightarrow> encode_members kvs = DQ # tl (encode_members kvs)"
proof (cases kvs)
  case Nil
  assume "kvs \<noteq> []"
  with Nil show ?thesis by simp
next
  case (Cons kv rest)
  obtain k v where kv: "kv = (k, v)" by (cases kv)
  show ?thesis
    using Cons kv by (cases rest) (simp_all add: encode_str_def)
qed

lemma dict_set_fresh: "k \<notin> fst ` set d \<Longrightarrow> dict_set d k v = d @ [(k, v)]"
  by (induction d) auto

lemma py_dict_foldl:
  "distinct (map fst (acc @ kvs)) \<Longrightarrow>
     foldl (\<lambda>d kv. dict_set d (fst kv) (snd kv)) acc kvs = acc @ kvs"
proof (induction kvs arbitrary: acc)
  case Nil
  show ?case by simp
next
  case (Cons kv kvs)
  from Cons.prems have fresh: "fst kv \<notin> fst ` set acc" by auto
  from Cons.prems have "distinct (map fst ((acc @ [kv]) @ kvs))" by simp
  from Cons.IH [OF this] fresh show ?case by (simp add: dict_set_fresh)
qed

lemma py_dict_distinct: "distinct (map fst kvs) \<Longrightarrow> py_dict kvs = kvs"
  using py_dict_foldl [of "[]" kvs] by (simp add: py_dict_def)

lemma delimited_simps:
  "delimited []" "delimited (CHR '','' # r)" "delimited (CHR '']'' # r)" "delimited (CHR ''}'' # r)"
  by (simp_all add: delimited_def)

lemma is_ws_simps:
  "\<not> is_ws (CHR '','')" "\<not> is_ws (CHR '']'')" "\<not> is_ws (CHR ''}'')" "\<not> is_ws (CHR '':'')"
  "\<not> is_ws DQ" "is_ws (CHR '' '')"
  by (simp_all add: is_ws_def)

lemma parse_roundtrip:
  "json_compatible v \<longrightarrow>
     (\<forall>n rest. length (encode v) < n \<longrightarrow> delimited rest \<longrightarrow>
        parse_value n (encode v @ rest) = Parsed v rest)"
  "vs \<noteq> [] \<longrightarrow> (\<forall>v \<in> set vs. json_compatible v) \<longrightarrow>
     (\<forall>n rest. length (encode_elems vs) < n \<longrightarrow>
        parse_elems n (encode_elems vs @ rest) = Parsed vs rest)"
  "kvs \<noteq> [] \<longrightarrow> (\<forall>kv \<in> set kvs. json_compatible (snd kv)) \<longrightarrow>
     (\<forall>n rest. length (encode_members kvs) < n \<longrightarrow>
        parse_members n (tl (encode_members kvs) @ rest) = Parsed kvs rest)"
proof (induction v and vs and kvs rule: encode_encode_elems_encode_members.induct)
  case 1
  show ?case
  proof (intro impI allI)
    fix n :: nat and rest
    assume "length (encode PNone) < n"
    then obtain m where "n = Suc m" by (cases n) auto
    then show "parse_value n (encode PNone @ rest) = Parsed PNone rest" by simp
  qed
next
  case (2 b)
  show ?case
  proof (intro impI allI)
    fix n :: nat and rest
    assume "length (encode (PBool b)) < n"
    then obtain m where "n = Suc m" by (cases n) auto
    then show "parse_value n (encode (PBool b) @ rest) = Parsed (PBool b) rest" by simp
  qed
next
  case (3 i)
  show ?case
  proof (intro impI allI)
    fix n :: nat and rest
    assume "length (encode (PInt i)) < n" and d: "delimited rest"
    then obtain m where "n = Suc m" by (cases n) auto
    with parse_value_encode_int [OF d, of m i]
    show "parse_value n (encode (PInt i) @ rest) = Parsed (PInt i) rest"
      by (simp del: parse_value.simps)
  qed
next
  case (4 s)
  show ?case
  proof (intro impI allI)
    fix n :: nat and rest
    assume "length (encode (PStr s)) < n"
    then obtain m where n: "n = Suc m" by (cases n) auto
    have e: "encode (PStr s) @ rest = DQ # (tl (encode_str s) @ rest)"
      by (simp add: encode_str_def)
    show "parse_value n (encode (PStr s) @ rest) = Parsed (PStr s) rest"
      unfolding n e by (simp add: scanstring_encode_str)
  qed
next
  case (5 vs)
  show ?case
  proof (intro impI allI)
    fix n :: nat and rest
    assume c: "json_compatible (PList vs)" and l: "length (encode (PList vs)) < n"
    from l obtain m where n: "n = Suc m" and m: "length (encode_elems vs) < m"
      by (cases n) auto
    show "parse_value n (encode (PList vs) @ rest) = Parsed (PList vs) rest"
    proof (cases "vs = []")
      case True
      with n show ?thesis by (simp add: skip_ws_non_ws is_ws_simps)
    next
      case False
      from c have cs: "\<forall>v \<in> set vs. json_compatible v" by simp
      from encode_elems_head [OF False cs] obtain d r
        where e: "encode_elems vs = d # r" and d: "\<not> is_ws d" "d \<noteq> CHR '']''" by blast
      from 5 False cs m have "parse_elems m (encode_elems vs @ rest) = Parsed vs rest"
        by blast
      with e have p: "parse_elems m (d # r @ rest) = Parsed vs rest" by simp
      have e': "encode (PList vs) @ rest = CHR ''['' # d # r @ rest"
        using e by simp
      show ?thesis
        unfolding n e' using p d by (simp add: skip_ws_non_ws)
    qed
  qed
next
  case (6 vs)
  show ?case by simp
next
  case (7 kvs)
  show ?case
  proof (intro impI allI)
    fix n :: nat and rest
    assume c: "json_compatible (PDict kvs)" and l: "length (encode (PDict kvs)) < n"
    from l obtain m where n: "n = Suc m" and m: "length (encode_members kvs) < m"
      by (cases n) auto
    show "parse_value n (encode (PDict kvs) @ rest) = Parsed (PDict kvs) rest"
    proof (cases "kvs = []")
      case True
      with n show ?thesis by (simp add: skip_ws_non_ws is_ws_simps)
    next
      case False
      from c have cs: "\<forall>kv \<in> set kvs. json_compatible (snd kv)"
        and dist: "distinct (map fst kvs)" by simp_all
      from 7 False cs m
      have p: "parse_members m (tl (encode_members kvs) @ rest) = Parsed kvs rest"
        by blast
      have e: "encode (PDict kvs) @ rest = CHR ''{'' # DQ # (tl (encode_members kvs) @ rest)"
        using encode_members_head [OF False] by (metis append_Cons encode.simps(7))
      show ?thesis
        unfolding n e using p
        by (simp add: skip_ws_non_ws is_ws_simps py_dict_distinct [OF dist])
    qed
  qed
next
  case (8 k)
  show ?case by simp
next
  case 9
  show ?case by simp
next
  case (10 v)
  show ?case
  proof (intro impI allI)
    fix n :: nat and rest
    assume c: "\<forall>x \<in> set [v]. json_compatible x" and l: "length (encode_elems [v]) < n"
    from l obtain m where n: "n = Suc m" and m: "length (encode v) < m"
      by (cases n) auto
    from 10 c m have "parse_value m (encode v @ CHR '']'' # rest) = Parsed v (CHR '']'' # rest)"
      by (simp add: delimited_simps)
    moreover have "encode_elems [v] @ rest = encode v @ CHR '']'' # rest" by simp
    ultimately show "parse_elems n (encode_elems [v] @ rest) = Parsed [v] rest"
      unfolding n by (simp add: skip_ws_non_ws is_ws_simps)
  qed
next
  case (11 v w vs)
  show ?case
  proof (intro impI allI)
    fix n :: nat and rest
    assume c: "\<forall>x \<in> set (v # w # vs). json_compatible x"
      and l: "length (encode_elems (v # w # vs)) < n"
    from l obtain m where n: "n = Suc m" and m: "length (encode v) < m"
      "length (encode_elems (w # vs)) < m"
      by (cases n) auto
    let ?tail = "encode_elems (w # vs) @ rest"
    from "11.IH"(1) c m
    have v: "parse_value m (encode v @ CHR '','' # CHR '' '' # ?tail) = Parsed v (CHR '','' # CHR '' '' # ?tail)"
      by (simp add: delimited_simps)
    from "11.IH"(2) c m have ws: "parse_elems m ?tail = Parsed (w # vs) rest"
      by simp
    from c have "\<forall>x \<in> set (w # vs). json_compatible x" by simp
    from encode_elems_head [OF _ this] obtain d r
      where e: "encode_elems (w # vs) = d # r" and d: "\<not> is_ws d" by blast
    then have sk: "skip_ws (CHR '' '' # ?tail) = ?tail"
      by (simp add: skip_ws_space skip_ws_non_ws)
    have e': "encode_elems (v # w # vs) @ rest = encode v @ CHR '','' # CHR '' '' # ?tail"
      by simp
    show "parse_elems n (encode_elems (v # w # vs) @ rest) = Parsed (v # w # vs) rest"
      unfolding n e' using v ws sk
      by (simp add: skip_ws_non_ws is_ws_simps del: encode_elems.simps)
  qed
next
  case 12
  show ?case by simp
next
  case (13 k v)
  show ?case
  proof (intro impI allI)
    fix n :: nat and rest
    assume c: "\<forall>kv \<in> set [(k, v)]. json_compatible (snd kv)"
      and l: "length (encode_members [(k, v)]) < n"
    from l obtain m where n: "n = Suc m" and m: "length (encode v) < m"
      by (cases n) auto
    from c have cv: "json_compatible v" by simp
    let ?after = "encode v @ CHR ''}'' # rest"
    from 13 cv m have v: "parse_value m ?after = Parsed v (CHR ''}'' # rest)"
      by (simp add: delimited_simps)
    from encode_head [OF cv] obtain d r where "encode v = d # r" "\<not> is_ws d" by blast
    then have sk: "skip_ws (CHR '' '' # ?after) = ?after"
      by (simp add: skip_ws_space skip_ws_non_ws)
    have e': "tl (encode_members [(k, v)]) @ rest = tl (encode_str k) @ CHR '':'' # CHR '' '' # ?after"
      by (simp add: encode_str_def)
    show "parse_members n (tl (encode_members [(k, v)]) @ rest) = Parsed [(k, v)] rest"
      unfolding n e' using v sk
      by (simp add: scanstring_encode_str skip_ws_non_ws is_ws_simps del: encode_members.simps)
  qed
next
  case (14 k v kv kvs)
  show ?case
  proof (intro impI allI)
    fix n :: nat and rest
    assume c: "\<forall>x \<in> set ((k, v) # kv # kvs). json_compatible (snd x)"
      and l: "length (encode_members ((k, v) # kv # kvs)) < n"
    from l obtain m where n: "n = Suc m" and m: "length (encode v) < m"
      "length (encode_members (kv # kvs)) < m"
      by (cases n) auto
    from c have cv: "json_compatible v" by simp
    let ?more = "tl (encode_members (kv # kvs)) @ rest"
    let ?after = "encode v @ CHR '','' # CHR '' '' # DQ # ?more"
    from "14.IH"(1) cv m have v: "parse_value m ?after = Parsed v (CHR '','' # CHR '' '' # DQ # ?more)"
      by (simp add: delimited_simps)
    from "14.IH"(2) c m have ms: "parse_members m ?more = Parsed (kv # kvs) rest"
      by simp
    from encode_head [OF cv] obtain d r where "encode v = d # r" "\<not> is_ws d" by blast
    then have sk: "skip_ws (CHR '' '' # ?after) = ?after"
      by (simp add: skip_ws_space skip_ws_non_ws)
    have sk2: "skip_ws (CHR '' '' # DQ # ?more) = DQ # ?more"
      by (simp add: skip_ws_space skip_ws_non_ws is_ws_simps)
    have "encode_members (kv # kvs) = DQ # tl (encode_members (kv # kvs))"
      by (rule encode_members_head) simp
    then have "encode_members (kv # kvs) @ rest = DQ # ?more"
      by (metis append_Cons)
    then have e': "tl (encode_members ((k, v) # kv # kvs)) @ rest =
        tl (encode_str k) @ CHR '':'' # CHR '' '' # ?after"
      by (simp add: encode_str_def)
    show "parse_members n (tl (encode_members ((k, v) # kv # kvs)) @ rest) = Parsed ((k, v) # kv # kvs) rest"
      unfolding n e' using v ms sk sk2
      by (simp add: scanstring_encode_str skip_ws_non_ws is_ws_simps del: encode_members.simps)
  qed
qed

lemma json_loads_encode:
  assumes "json_compatible v"
  shows "json_loads (encode v) = Inr v"
proof -
  from encode_head [OF assms] obtain c r where "encode v = c # r" "\<not> is_ws c" by blast
  then have sk: "skip_ws (encode v) = encode v" by (simp add: skip_ws_non_ws)
  have "length (encode v) < 2 * length (encode v) + 2" by simp
  with parse_roundtrip(1) [of v] assms
  have "parse_value (2 * length (encode v) + 2) (encode v @ []) = Parsed v []"
    using delimited_simps(1) by blast
  with sk show ?thesis by (simp add: json_loads_def skip_ws_def)
qed

lemma json_compatible_serializable: "json_compatible v \<Longrightarrow> serializable v"
  by (induction v rule: json_compatible.induct) auto

lemma json_roundtrip:
  assumes "json_compatible v"
  shows "\<exists>text. json_dumps v = Inr text \<and> text \<noteq> [] \<and> json_loads text = Inr v"
proof -
  from encode_head [OF assms] have "encode v \<noteq> []" by auto
  with assms show ?thesis
    by (simp add: json_dumps_def json_compatible_serializable json_loads_encode)
qed

section \<open>Write, then read\<close>

lemma JSONStorage_init_append:
  "JSONStorage_init ''db.json'' ''a+'' [''db.json'' \<mapsto> File ''{}''] = Inr append_json"
  by (simp add: JSONStorage_init_def touch_def py_open_def valid_mode_def append_json_def)

lemma write_at_start: "write_at 0 text c = text @ drop (length text) c"
  by (simp add: write_at_def)

lemma truncate_at_written: "truncate_at (length text) (text @ rest) = text"
  by (simp add: truncate_at_def)

lemma plus_mode: "CHR ''+'' \<in> set m \<Longrightarrow> readable m \<and> writable m"
  by (simp add: readable_def writable_def)

lemma JSONStorage_write_update_mode:
  assumes "\<not> f_closed (handle s)" and "CHR ''+'' \<in> set (f_mode (handle s))"
    and "CHR ''a'' \<notin> set (f_mode (handle s))" and "serializable data"
  shows "JSONStorage_write data s =
     (Inr (), s\<lparr>handle := (handle s)\<lparr>f_pos := length (encode data)\<rparr>,
              disk := (disk s)(f_path (handle s) \<mapsto> File (encode data))\<rparr>)"
  using assms plus_mode [OF assms(2)]
  by (simp add: JSONStorage_write_def and_then_def handle_seek_def raise_or_return_def
      json_dumps_def handle_write_def handle_flush_def handle_fsync_def handle_truncate_def
      Let_def file_content_def write_at_start truncate_at_written)

lemma written_json_built:
  "snd (JSONStorage_write (PDict []) fresh_json) = written_json"
  by (simp add: JSONStorage_write_update_mode fresh_json_def written_json_def)

lemma wplus_json_built:
  "\<exists>s0. JSONStorage_init ''db.json'' ''w+'' Map.empty = Inr s0
     \<and> snd (JSONStorage_write (PDict []) s0) = wplus_json"
  by (simp add: JSONStorage_init_def touch_def py_open_def valid_mode_def
      JSONStorage_write_update_mode wplus_json_def)

text \<open>
  Where \<^verbatim>\<open>write\<close> overwrites: on the memory storage, \<^verbatim>\<open>read\<close> after \<^verbatim>\<open>write(S)\<close>
  returns \<open>S\<close>, for any value. On the file storage with its handle open in a mode with
  \<^verbatim>\<open>+\<close> and without \<^verbatim>\<open>a\<close>, such as the default \<^verbatim>\<open>r+\<close>, for a JSON-compatible
  \<open>S\<close> of the modelled values and whatever the file held before: \<^verbatim>\<open>write(S)\<close> returns,
  the file then holds exactly the serialisation of \<open>S\<close> (nothing of a longer previous
  content is left), and \<^verbatim>\<open>read\<close> returns \<open>S\<close>.
\<close>

lemma write_then_read_update_mode:
  "fst (MemoryStorage_read (snd (MemoryStorage_write S' m))) = Inr S'
 \<and> (\<not> f_closed (handle s) \<and> CHR ''+'' \<in> set (f_mode (handle s)) \<and> CHR ''a'' \<notin> set (f_mode (handle s))
      \<and> disk s (f_path (handle s)) = Some (File c) \<and> json_compatible S \<longrightarrow>
      fst (JSONStorage_write S s) = Inr ()
      \<and> disk (snd (JSONStorage_write S s)) (f_path (handle s)) = Some (File (encode S))
      \<and> fst (JSONStorage_read (snd (JSONStorage_write S s))) = Inr S)"
proof (intro conjI impI)
  show "fst (MemoryStorage_read (snd (MemoryStorage_write S' m))) = Inr S'"
    by (simp add: MemoryStorage_read_def MemoryStorage_write_def)
next
  assume a: "\<not> f_closed (handle s) \<and> CHR ''+'' \<in> set (f_mode (handle s))
    \<and> CHR ''a'' \<notin> set (f_mode (handle s)) \<and> disk s (f_path (handle s)) = Some (File c)
    \<and> json_compatible S"
  then have h: "\<not> f_closed (handle s)" "CHR ''+'' \<in> set (f_mode (handle s))"
    "CHR ''a'' \<notin> set (f_mode (handle s))" and c: "json_compatible S" by simp_all
  note w = JSONStorage_write_update_mode [OF h json_compatible_serializable [OF c]]
  from json_roundtrip [OF c] have ne: "encode S \<noteq> []" and l: "json_loads (encode S) = Inr S"
    by (simp_all add: json_dumps_def json_compatible_serializable [OF c])
  show "fst (JSONStorage_write S s) = Inr ()" by (simp add: w)
  show "disk (snd (JSONStorage_write S s)) (f_path (handle s)) = Some (File (encode S))"
    by (simp add: w)
  show "fst (JSONStorage_read (snd (JSONStorage_write S s))) = Inr S"
    using h ne l plus_mode [OF h(2)]
    by (simp add: w JSONStorage_read_fst file_content_def Let_def)
qed

lemma write_then_read_update_mode_example:
  "fst (MemoryStorage_read (snd (MemoryStorage_write (PDict [(''t'', PTuple [])]) MemoryStorage_init)))
     = Inr (PDict [(''t'', PTuple [])])
   \<and> disk long_json ''db.json'' = Some (File ''[1, 2, 3, 4, 5, 6]'')
   \<and> fst (JSONStorage_write (PDict []) long_json) = Inr ()
   \<and> disk (snd (JSONStorage_write (PDict []) long_json)) ''db.json'' = Some (File ''{}'')
   \<and> fst (JSONStorage_read (snd (JSONStorage_write (PDict []) long_json))) = Inr (PDict [])"
proof -
  have h: "\<not> f_closed (handle long_json) \<and> CHR ''+'' \<in> set (f_mode (handle long_json))
      \<and> CHR ''a'' \<notin> set (f_mode (handle long_json))
      \<and> disk long_json (f_path (handle long_json)) = Some (File ''[1, 2, 3, 4, 5, 6]'')
      \<and> json_compatible (PDict [])"
    by (simp add: long_json_def fresh_json_def)
  from h write_then_read_update_mode [of "PDict [(''t'', PTuple [])]" MemoryStorage_init long_json
      "''[1, 2, 3, 4, 5, 6]''" "PDict []"]
  show ?thesis by (simp add: long_json_def fresh_json_def)
qed

text \<open>
  Claim C2. The claim, that \<^verbatim>\<open>read\<close> after \<^verbatim>\<open>write(S)\<close> returns \<open>S\<close> on either
  backend, fails on the code at \<^verbatim>\<open>JSONStorage('db.json', access_mode='a+')\<close> over a
  file that holds \<^verbatim>\<open>{}\<close>, then \<^verbatim>\<open>write({})\<close>, then \<^verbatim>\<open>read()\<close>. \<^verbatim>\<open>write\<close> moves to
  the start of the file to overwrite it and truncates after what it wrote, but in an
  append mode every write goes to the end of the file whatever the position: \<^verbatim>\<open>write\<close>
  returns, the file holds \<^verbatim>\<open>{}{}\<close>, and \<^verbatim>\<open>read\<close> raises \<^verbatim>\<open>JSONDecodeError\<close>.
\<close>

theorem write_then_read_append_mode:
  "JSONStorage_init ''db.json'' ''a+'' [''db.json'' \<mapsto> File ''{}''] = Inr append_json
   \<and> fst (JSONStorage_write (PDict []) append_json) = Inr ()
   \<and> disk (snd (JSONStorage_write (PDict []) append_json)) ''db.json'' = Some (File ''{}{}'')
   \<and> fst (JSONStorage_read (snd (JSONStorage_write (PDict []) append_json))) = Inl JSONDecodeError"
proof (intro conjI)
  show "JSONStorage_init ''db.json'' ''a+'' [''db.json'' \<mapsto> File ''{}''] = Inr append_json"
    by (rule JSONStorage_init_append)
  show "fst (JSONStorage_write (PDict []) append_json) = Inr ()"
    by code_simp
  show "disk (snd (JSONStorage_write (PDict []) append_json)) ''db.json'' = Some (File ''{}{}'')"
    by code_simp
  show "fst (JSONStorage_read (snd (JSONStorage_write (PDict []) append_json))) = Inl JSONDecodeError"
    by code_simp
qed

section \<open>Rollback\<close>

lemma py_open_w:
  "d p \<noteq> Some Dir \<Longrightarrow>
     py_open p ''w'' d = (Inr \<lparr>f_path = p, f_mode = ''w'', f_pos = 0, f_closed = False\<rparr>, d(p \<mapsto> File []))"
  by (auto simp: py_open_def valid_mode_def split: option.splits node.splits)

lemma read_text_file: "d p = Some (File c) \<Longrightarrow> read_text p d = Inr c"
  by (simp add: read_text_def py_open_def valid_mode_def file_content_def)

lemma write_text_file:
  "d p \<noteq> Some Dir \<Longrightarrow> write_text p c d = (Inr (), d(p \<mapsto> File c))"
  by (simp add: write_text_def py_open_w file_content_def write_at_def)

lemma acquire_lock_ok:
  assumes "disk s (path s @ ''.lock'') \<noteq> Some Dir"
  shows "\<exists>f d. JSONStorage_acquire_lock s = (Inr (), s\<lparr>lock_file := Some f, locked := True, disk := d\<rparr>)
     \<and> (lock_file s \<noteq> None \<longrightarrow> lock_file s = Some f)
     \<and> (lock_file s = None \<longrightarrow> \<not> f_closed f)
     \<and> (\<forall>q. q \<noteq> path s @ ''.lock'' \<longrightarrow> d q = disk s q)
     \<and> d (path s @ ''.lock'') \<noteq> Some Dir"
proof (cases "lock_file s")
  case None
  let ?f = "\<lparr>f_path = path s @ ''.lock'', f_mode = ''w'', f_pos = 0, f_closed = False\<rparr>"
  let ?d = "(disk s)(path s @ ''.lock'' \<mapsto> File [])"
  have "JSONStorage_acquire_lock s = (Inr (), s\<lparr>lock_file := Some ?f, locked := True, disk := ?d\<rparr>)"
    using None assms by (simp add: JSONStorage_acquire_lock_def and_then_def py_open_w)
  then show ?thesis
    using None by (intro exI [of _ ?f] exI [of _ ?d]) simp
next
  case (Some f)
  have "s\<lparr>locked := True\<rparr> = s\<lparr>lock_file := Some f, locked := True, disk := disk s\<rparr>"
    using Some by simp
  then have "JSONStorage_acquire_lock s = (Inr (), s\<lparr>lock_file := Some f, locked := True, disk := disk s\<rparr>)"
    using Some by (simp add: JSONStorage_acquire_lock_def and_then_def)
  then show ?thesis
    using Some assms by (intro exI [of _ f] exI [of _ "disk s"]) simp
qed

lemma begin_transaction_ok:
  assumes "idle_file_storage p m c s"
  shows "\<exists>s1. JSONStorage_begin_transaction (s\<lparr>in_transaction := True\<rparr>) = (Inr (), s1)
     \<and> rollback_ready p m c s1"
proof -
  let ?s0 = "s\<lparr>in_transaction := True, backup_path := Some (path s @ ''.backup'')\<rparr>"
  from assms have a: "path s = p" "mode s = m" "f_path (handle s) = p" "disk s p = Some (File c)"
    "disk s (p @ ''.lock'') \<noteq> Some Dir" "disk s (p @ ''.backup'') \<noteq> Some Dir"
    "case lock_file s of None \<Rightarrow> True | Some f \<Rightarrow> \<not> f_closed f"
    by (simp_all add: idle_file_storage_def)
  from a have "disk ?s0 (path ?s0 @ ''.lock'') \<noteq> Some Dir" by simp
  from acquire_lock_ok [OF this] obtain f d where
    l: "JSONStorage_acquire_lock ?s0 = (Inr (), ?s0\<lparr>lock_file := Some f, locked := True, disk := d\<rparr>)"
    and f: "lock_file s \<noteq> None \<longrightarrow> lock_file s = Some f" "lock_file s = None \<longrightarrow> \<not> f_closed f"
    and d: "\<forall>q. q \<noteq> p @ ''.lock'' \<longrightarrow> d q = disk s q"
    using a(1) by auto
  from f a(7) have fo: "\<not> f_closed f" by (cases "lock_file s") auto
  from d a have dp: "d p = Some (File c)" and db: "d (p @ ''.backup'') \<noteq> Some Dir" by simp_all
  let ?s1 = "?s0\<lparr>lock_file := Some f, locked := True, disk := d(p @ ''.backup'' \<mapsto> File c)\<rparr>"
  have "JSONStorage_begin_transaction (s\<lparr>in_transaction := True\<rparr>) = (Inr (), ?s1)"
    using l a(1) dp db
    by (simp add: JSONStorage_begin_transaction_def and_then_def get_backup_path_def on_disk_def
        read_text_file write_text_file)
  moreover have "rollback_ready p m c ?s1"
    using a fo dp by (simp add: rollback_ready_def)
  ultimately show ?thesis by blast
qed

lemma JSONStorage_write_frame:
  "\<exists>h d. snd (JSONStorage_write v s) = s\<lparr>handle := h, disk := d\<rparr>
     \<and> f_path h = f_path (handle s)
     \<and> (\<forall>q. q \<noteq> f_path (handle s) \<longrightarrow> d q = disk s q)
     \<and> (d (f_path (handle s)) = disk s (f_path (handle s)) \<or> (\<exists>c'. d (f_path (handle s)) = Some (File c')))"
proof -
  let ?h0 = "(handle s)\<lparr>f_pos := 0\<rparr>"
  consider (closed) "f_closed (handle s)"
    | (unserializable) "\<not> f_closed (handle s)" "\<not> serializable v"
    | (rejected) "\<not> f_closed (handle s)" "serializable v" "\<not> writable (f_mode (handle s))"
    | (written) "\<not> f_closed (handle s)" "serializable v" "writable (f_mode (handle s))"
    by blast
  then show ?thesis
  proof cases
    case closed
    then have "snd (JSONStorage_write v s) = s"
      by (simp add: JSONStorage_write_def and_then_def handle_seek_def)
    then show ?thesis
      by (intro exI [of _ "handle s"] exI [of _ "disk s"]) simp
  next
    case unserializable
    then have "snd (JSONStorage_write v s) = s\<lparr>handle := ?h0\<rparr>"
      by (simp add: JSONStorage_write_def and_then_def handle_seek_def raise_or_return_def
          json_dumps_def)
    then show ?thesis
      by (intro exI [of _ ?h0] exI [of _ "disk s"]) simp
  next
    case rejected
    then have "snd (JSONStorage_write v s) = s\<lparr>handle := ?h0\<rparr>"
      by (simp add: JSONStorage_write_def and_then_def handle_seek_def raise_or_return_def
          json_dumps_def handle_write_def Let_def)
    then show ?thesis
      by (intro exI [of _ ?h0] exI [of _ "disk s"]) simp
  next
    case written
    let ?c = "file_content (disk s) (f_path (handle s))"
    let ?pos = "if CHR ''a'' \<in> set (f_mode (handle s)) then length ?c else 0"
    let ?n = "?pos + length (encode v)"
    let ?h = "(handle s)\<lparr>f_pos := ?n\<rparr>"
    let ?d = "(disk s)(f_path (handle s) \<mapsto> File (truncate_at ?n (write_at ?pos (encode v) ?c)))"
    from written have "snd (JSONStorage_write v s) = s\<lparr>handle := ?h, disk := ?d\<rparr>"
      by (simp add: JSONStorage_write_def and_then_def handle_seek_def raise_or_return_def
          json_dumps_def handle_write_def handle_flush_def handle_fsync_def handle_truncate_def
          Let_def file_content_def)
    then show ?thesis
      by (intro exI [of _ ?h] exI [of _ ?d]) simp
  qed
qed

lemma JSONStorage_write_keeps_ready:
  assumes "rollback_ready p m c s"
  shows "rollback_ready p m c (snd (JSONStorage_write v s))"
proof -
  from JSONStorage_write_frame [of v s] obtain h d where
    w: "snd (JSONStorage_write v s) = s\<lparr>handle := h, disk := d\<rparr>"
    and h: "f_path h = f_path (handle s)"
    and d: "\<forall>q. q \<noteq> f_path (handle s) \<longrightarrow> d q = disk s q"
      "d (f_path (handle s)) = disk s (f_path (handle s)) \<or> (\<exists>c'. d (f_path (handle s)) = Some (File c'))"
    by blast
  from assms have p: "f_path (handle s) = p" by (simp add: rollback_ready_def)
  have "p @ ''.backup'' \<noteq> p" by simp
  with d p have "d (p @ ''.backup'') = disk s (p @ ''.backup'')" by metis
  moreover from d(2) p assms have "\<exists>c'. d p = Some (File c')"
    by (auto simp: rollback_ready_def)
  ultimately show ?thesis
    using assms h p by (simp add: w rollback_ready_def)
qed

lemma JSONStorage_writes_keep_ready:
  "rollback_ready p m c s \<Longrightarrow> rollback_ready p m c (JSONStorage_writes vs s)"
  by (induction vs arbitrary: s) (simp_all add: JSONStorage_write_keeps_ready)

lemma py_open_existing:
  assumes "valid_mode m" and "CHR ''w'' \<notin> set m" and "CHR ''x'' \<notin> set m" and "d p = Some (File c)"
  shows "\<exists>f. py_open p m d = (Inr f, d) \<and> f_path f = p \<and> f_mode f = m \<and> \<not> f_closed f"
  using assms by (simp add: py_open_def)

lemma rollback_transaction_ok:
  assumes "rollback_ready p m c s" and "valid_mode m" and "CHR ''w'' \<notin> set m" and "CHR ''x'' \<notin> set m"
  shows "\<exists>s3. JSONStorage_rollback_transaction s = (Inr (), s3)
     \<and> f_path (handle s3) = p \<and> f_mode (handle s3) = m \<and> \<not> f_closed (handle s3)
     \<and> disk s3 p = Some (File c)"
proof -
  from assms(1) obtain c' f where a: "path s = p" "mode s = m"
    "backup_path s = Some (p @ ''.backup'')" "disk s (p @ ''.backup'') = Some (File c)"
    "disk s p = Some (File c')" "lock_file s = Some f" "\<not> f_closed f"
    by (auto simp: rollback_ready_def)
  let ?d = "(disk s)(p \<mapsto> File c)"
  have dp: "?d p = Some (File c)" by simp
  from py_open_existing [of m ?d p c, OF assms(2-4) dp] obtain h where
    h: "py_open p m ?d = (Inr h, ?d)" "f_path h = p" "f_mode h = m" "\<not> f_closed h" by blast
  have ne: "p @ ''.backup'' \<noteq> p" by simp
  let ?s3 = "s\<lparr>handle := h, locked := False, disk := ?d(p @ ''.backup'' := None)\<rparr>"
  have "JSONStorage_rollback_transaction s = (Inr (), ?s3)"
    using a h(1) ne
    by (simp add: JSONStorage_rollback_transaction_def try_finally_def and_then_def handle_close_def
        get_backup_path_def read_text_file write_text_file on_disk_def remove_backup_def
        path_exists_def os_remove_def JSONStorage_release_lock_def)
  moreover have "disk ?s3 p = Some (File c)" using ne by simp
  ultimately show ?thesis using h by (intro exI [of _ ?s3]) simp
qed

lemma MemoryStorage_writes_frame:
  "in_transaction (MemoryStorage_writes vs s) = in_transaction s
   \<and> backup (MemoryStorage_writes vs s) = backup s"
  by (induction vs arbitrary: s) (simp_all add: MemoryStorage_write_def)

lemma MemoryStorage_begin_ok:
  assumes "\<not> in_transaction m" and "json_compatible (memory m)"
  shows "Storage_begin MemoryStorage m = (Inr (), m\<lparr>in_transaction := True, backup := memory m\<rparr>)"
proof -
  from json_roundtrip [OF assms(2)] obtain t where
    "json_dumps (memory m) = Inr t" "json_loads t = Inr (memory m)" by blast
  moreover have "memory m = PNone \<Longrightarrow>
      m\<lparr>in_transaction := True, backup := PNone\<rparr> = m\<lparr>in_transaction := True, backup := memory m\<rparr>"
    by simp
  ultimately show ?thesis
    using assms(1)
    by (simp add: Storage_begin_def MemoryStorage_def MemoryStorage_begin_transaction_def)
qed

text \<open>
  Where \<^verbatim>\<open>rollback\<close> restores: for the memory storage that holds a JSON-compatible
  snapshot of the modelled values, and for the file storage with its handle open on its
  file when reopening the file in the storage's mode leaves its content in place (a mode
  without \<^verbatim>\<open>w\<close> and \<^verbatim>\<open>x\<close>), the paths of its lock file and backup not taken by
  directories: \<^verbatim>\<open>begin\<close> returns; after any sequence of writes, \<^verbatim>\<open>rollback\<close> returns,
  and \<^verbatim>\<open>read\<close> then gives what it gave right before \<^verbatim>\<open>begin\<close>. The same state is
  reached when the writes are the block of a transaction scope that then raises: the scope
  rolls back and re-raises the block's error.
\<close>

lemma rollback_restores_where_reopen_keeps:
  "(\<not> in_transaction m \<and> json_compatible (memory m) \<longrightarrow>
      fst (Storage_begin MemoryStorage m) = Inr ()
      \<and> fst (Storage_rollback MemoryStorage
             (MemoryStorage_writes vs (snd (Storage_begin MemoryStorage m)))) = Inr ()
      \<and> fst (MemoryStorage_read (snd (Storage_rollback MemoryStorage
             (MemoryStorage_writes vs (snd (Storage_begin MemoryStorage m))))))
          = fst (MemoryStorage_read m)
      \<and> Storage_transaction MemoryStorage (\<lambda>t. (Inl e, MemoryStorage_writes vs t)) m =
          (Inl e, snd (Storage_rollback MemoryStorage
             (MemoryStorage_writes vs (snd (Storage_begin MemoryStorage m))))))
 \<and> (idle_file_storage p md c s \<and> valid_mode md \<and> CHR ''w'' \<notin> set md \<and> CHR ''x'' \<notin> set md \<longrightarrow>
      fst (Storage_begin JSONStorage s) = Inr ()
      \<and> fst (Storage_rollback JSONStorage
             (JSONStorage_writes ws (snd (Storage_begin JSONStorage s)))) = Inr ()
      \<and> fst (JSONStorage_read (snd (Storage_rollback JSONStorage
             (JSONStorage_writes ws (snd (Storage_begin JSONStorage s))))))
          = fst (JSONStorage_read s)
      \<and> Storage_transaction JSONStorage (\<lambda>t. (Inl e', JSONStorage_writes ws t)) s =
          (Inl e', snd (Storage_rollback JSONStorage
             (JSONStorage_writes ws (snd (Storage_begin JSONStorage s))))))"
proof (intro conjI impI)
  assume a: "\<not> in_transaction m \<and> json_compatible (memory m)"
  let ?m1 = "m\<lparr>in_transaction := True, backup := memory m\<rparr>"
  let ?m2 = "MemoryStorage_writes vs ?m1"
  from a have b: "Storage_begin MemoryStorage m = (Inr (), ?m1)"
    by (simp add: MemoryStorage_begin_ok)
  from MemoryStorage_writes_frame [of vs ?m1]
  have f: "in_transaction ?m2" "backup ?m2 = memory m" by simp_all
  then have r: "Storage_rollback MemoryStorage ?m2 =
      (Inr (), ?m2\<lparr>memory := memory m, backup := PNone, in_transaction := False\<rparr>)"
    by (simp add: Storage_rollback_open MemoryStorage_def MemoryStorage_rollback_transaction_def)
  show "fst (Storage_begin MemoryStorage m) = Inr ()" by (simp add: b)
  show "fst (Storage_rollback MemoryStorage
      (MemoryStorage_writes vs (snd (Storage_begin MemoryStorage m)))) = Inr ()"
    by (simp add: b r)
  show "fst (MemoryStorage_read (snd (Storage_rollback MemoryStorage
      (MemoryStorage_writes vs (snd (Storage_begin MemoryStorage m)))))) = fst (MemoryStorage_read m)"
    by (simp add: b r MemoryStorage_read_def)
  show "Storage_transaction MemoryStorage (\<lambda>t. (Inl e, MemoryStorage_writes vs t)) m =
      (Inl e, snd (Storage_rollback MemoryStorage
         (MemoryStorage_writes vs (snd (Storage_begin MemoryStorage m)))))"
    by (simp add: Storage_transaction_def and_then_def b r)
next
  assume a: "idle_file_storage p md c s \<and> valid_mode md \<and> CHR ''w'' \<notin> set md \<and> CHR ''x'' \<notin> set md"
  then have idle: "idle_file_storage p md c s" and md: "valid_mode md" "CHR ''w'' \<notin> set md"
    "CHR ''x'' \<notin> set md" by simp_all
  from idle have i: "\<not> in_transaction s" "f_path (handle s) = p" "f_mode (handle s) = md"
    "\<not> f_closed (handle s)" "disk s p = Some (File c)"
    by (simp_all add: idle_file_storage_def)
  from begin_transaction_ok [OF idle] obtain s1 where
    s1: "JSONStorage_begin_transaction (s\<lparr>in_transaction := True\<rparr>) = (Inr (), s1)"
    and r1: "rollback_ready p md c s1" by blast
  from s1 i(1) have b: "Storage_begin JSONStorage s = (Inr (), s1)"
    by (simp add: Storage_begin_idle JSONStorage_def)
  let ?s2 = "JSONStorage_writes ws s1"
  from r1 have r2: "rollback_ready p md c ?s2" by (rule JSONStorage_writes_keep_ready)
  then have o2: "in_transaction ?s2" by (simp add: rollback_ready_def)
  from rollback_transaction_ok [OF r2 md] obtain s3 where
    s3: "JSONStorage_rollback_transaction ?s2 = (Inr (), s3)"
    and h3: "f_path (handle s3) = p" "f_mode (handle s3) = md" "\<not> f_closed (handle s3)"
      "disk s3 p = Some (File c)" by blast
  from o2 s3 have r: "Storage_rollback JSONStorage ?s2 = (Inr (), s3\<lparr>in_transaction := False\<rparr>)"
    by (simp add: Storage_rollback_open JSONStorage_def)
  show "fst (Storage_begin JSONStorage s) = Inr ()" by (simp add: b)
  show "fst (Storage_rollback JSONStorage
      (JSONStorage_writes ws (snd (Storage_begin JSONStorage s)))) = Inr ()"
    by (simp add: b r)
  show "fst (JSONStorage_read (snd (Storage_rollback JSONStorage
      (JSONStorage_writes ws (snd (Storage_begin JSONStorage s)))))) = fst (JSONStorage_read s)"
    using i h3 by (simp add: b r JSONStorage_read_fst file_content_def Let_def)
  show "Storage_transaction JSONStorage (\<lambda>t. (Inl e', JSONStorage_writes ws t)) s =
      (Inl e', snd (Storage_rollback JSONStorage
         (JSONStorage_writes ws (snd (Storage_begin JSONStorage s)))))"
    by (simp add: Storage_transaction_def and_then_def b r)
qed

lemma rollback_restores_where_reopen_keeps_example:
  "fst (MemoryStorage_read nested_memory) = Inr (PDict [(''t'', PDict [(''1'', PDict [])])])
   \<and> fst (MemoryStorage_read (snd (Storage_rollback MemoryStorage
        (MemoryStorage_writes [PDict [(''t'', PDict [])]] (snd (Storage_begin MemoryStorage nested_memory))))))
       = Inr (PDict [(''t'', PDict [(''1'', PDict [])])])
   \<and> fst (JSONStorage_read written_json) = Inr (PDict [])
   \<and> fst (JSONStorage_read (snd (Storage_rollback JSONStorage
        (JSONStorage_writes [PList []] (snd (Storage_begin JSONStorage written_json))))))
       = Inr (PDict [])
   \<and> fst (Storage_transaction JSONStorage (\<lambda>t. (Inl TypeError, JSONStorage_writes [PList []] t)) written_json)
       = Inl TypeError"
proof -
  have m: "\<not> in_transaction nested_memory \<and> json_compatible (memory nested_memory)"
    by (simp add: nested_memory_def)
  have j: "idle_file_storage ''db.json'' ''r+'' ''{}'' written_json \<and> valid_mode ''r+''
      \<and> CHR ''w'' \<notin> set ''r+'' \<and> CHR ''x'' \<notin> set ''r+''"
    by (simp add: idle_file_storage_def written_json_def fresh_json_def valid_mode_def)
  have rm: "fst (MemoryStorage_read nested_memory) = Inr (PDict [(''t'', PDict [(''1'', PDict [])])])"
    by (simp add: MemoryStorage_read_def nested_memory_def)
  have rj: "fst (JSONStorage_read written_json) = Inr (PDict [])"
    by code_simp
  from m j rm rj
    rollback_restores_where_reopen_keeps [of nested_memory "[PDict [(''t'', PDict [])]]" TypeError
      "''db.json''" "''r+''" "''{}''" written_json "[PList []]" TypeError]
  show ?thesis by simp
qed

text \<open>
  Claim C1. The claim, that after a rollback \<^verbatim>\<open>read\<close> returns the snapshot that was
  visible right before \<^verbatim>\<open>begin\<close> on every storage, fails on the code at
  \<^verbatim>\<open>s = JSONStorage('db.json', access_mode='w+'); s.write({}); s.begin(); s.rollback(); s.read()\<close>.
  Before \<^verbatim>\<open>begin\<close>, \<^verbatim>\<open>read\<close> returns \<^verbatim>\<open>{}\<close>; \<^verbatim>\<open>begin\<close> and \<^verbatim>\<open>rollback\<close> return;
  \<^verbatim>\<open>rollback\<close> writes the backup back to the file and then reopens the handle in the
  storage's mode, which truncates the file it has just restored: the file is empty and
  \<^verbatim>\<open>read\<close> returns \<^verbatim>\<open>None\<close>.
\<close>

theorem rollback_truncating_mode:
  "(\<exists>s0. JSONStorage_init ''db.json'' ''w+'' Map.empty = Inr s0
        \<and> snd (JSONStorage_write (PDict []) s0) = wplus_json)
   \<and> fst (JSONStorage_read wplus_json) = Inr (PDict [])
   \<and> fst (Storage_begin JSONStorage wplus_json) = Inr ()
   \<and> fst (Storage_rollback JSONStorage (snd (Storage_begin JSONStorage wplus_json))) = Inr ()
   \<and> disk (snd (Storage_rollback JSONStorage (snd (Storage_begin JSONStorage wplus_json))))
        ''db.json'' = Some (File [])
   \<and> fst (JSONStorage_read (snd (Storage_rollback JSONStorage
        (snd (Storage_begin JSONStorage wplus_json))))) = Inr PNone"
proof (intro conjI)
  show "\<exists>s0. JSONStorage_init ''db.json'' ''w+'' Map.empty = Inr s0
      \<and> snd (JSONStorage_write (PDict []) s0) = wplus_json"
    by (rule wplus_json_built)
  show "fst (JSONStorage_read wplus_json) = Inr (PDict [])"
    by code_simp
  show "fst (Storage_begin JSONStorage wplus_json) = Inr ()"
    by code_simp
  show "fst (Storage_rollback JSONStorage (snd (Storage_begin JSONStorage wplus_json))) = Inr ()"
    by code_simp
  show "disk (snd (Storage_rollback JSONStorage (snd (Storage_begin JSONStorage wplus_json))))
      ''db.json'' = Some (File [])"
    by code_simp
  show "fst (JSONStorage_read (snd (Storage_rollback JSONStorage
      (snd (Storage_begin JSONStorage wplus_json))))) = Inr PNone"
    by code_simp
qed

text \<open>
  The memory storage copies its snapshot through \<^verbatim>\<open>json\<close>: a tuple in it comes back from
  a rollback as a list.
\<close>

lemma rollback_tuple_snapshot:
  "fst (MemoryStorage_read tuple_memory) = Inr (PDict [(''t'', PTuple [])])
   \<and> fst (Storage_begin MemoryStorage tuple_memory) = Inr ()
   \<and> fst (MemoryStorage_read (snd (Storage_rollback MemoryStorage
        (snd (Storage_begin MemoryStorage tuple_memory))))) = Inr (PDict [(''t'', PList [])])"
  by code_simp

section \<open>The scanner's budget\<close>

text \<open>
  Every successful call of the scanner consumes at least one character, and with the
  budget that \<open>json_loads\<close> gives it the scanner never reports \<open>OutOfFuel\<close>: the
  bound on nested calls is no restriction of the model.
\<close>

lemma skip_ws_length: "length (skip_ws s) \<le> length s"
  by (simp add: skip_ws_def length_dropWhile_le)

lemma pcons_Parsed: "pcons c x = Parsed k r \<Longrightarrow> \<exists>k'. x = Parsed k' r"
  by (cases x) (simp_all add: pcons_def)

lemma pcons_fuel: "pcons c x = Failed OutOfFuel \<Longrightarrow> x = Failed OutOfFuel"
  by (cases x) (simp_all add: pcons_def)

lemma scanstring_consumes: "scanstring s = Parsed k r \<Longrightarrow> length r < length s"
proof (induction s arbitrary: k rule: scanstring.induct)
  case 1
  then show ?case by simp
next
  case (2 c)
  then show ?case by (simp split: if_splits)
next
  case (3 c e t)
  show ?case
  proof (cases "c = DQ")
    case True
    with "3.prems" show ?thesis by simp
  next
    case False
    note nq = this
    show ?thesis
    proof (cases "c = BSL")
      case True
      show ?thesis
      proof (cases "e = CHR ''u''")
        case True
        with \<open>c = BSL\<close> nq "3.prems" obtain h1 h2 h3 h4 t' n where
          t: "t = h1 # h2 # h3 # h4 # t'" and d: "decode_uXXXX h1 h2 h3 h4 = Some n" and n: "n < 256"
          and p: "pcons (char_of n) (scanstring t') = Parsed k r"
          by (auto split: list.splits option.splits if_splits)
        from pcons_Parsed [OF p] obtain k' where "scanstring t' = Parsed k' r" by blast
        with "3.IH"(1) nq \<open>c = BSL\<close> True t d n have "length r < length t'" by blast
        with t show ?thesis by simp
      next
        case False
        with \<open>c = BSL\<close> nq "3.prems" obtain ch where
          u: "unescape e = Some ch" and p: "pcons ch (scanstring t) = Parsed k r"
          by (auto split: option.splits)
        from pcons_Parsed [OF p] obtain k' where "scanstring t = Parsed k' r" by blast
        from "3.IH"(2) [OF nq \<open>c = BSL\<close> False u this] show ?thesis by simp
      qed
    next
      case False
      with nq "3.prems" have c: "\<not> (of_char c :: nat) < 0x20" "\<not> 0x80 \<le> (of_char c :: nat)"
        and p: "pcons c (scanstring (e # t)) = Parsed k r"
        by (auto split: if_splits)
      from pcons_Parsed [OF p] obtain k' where "scanstring (e # t) = Parsed k' r" by blast
      from "3.IH"(3) [OF nq False c this] show ?thesis by simp
    qed
  qed
qed

lemma scanstring_fuel: "scanstring s \<noteq> Failed OutOfFuel"
proof (induction s rule: scanstring.induct)
  case 1
  show ?case by simp
next
  case (2 c)
  show ?case by simp
next
  case (3 c e t)
  show ?case
  proof
    assume a: "scanstring (c # e # t) = Failed OutOfFuel"
    show False
    proof (cases "c = DQ")
      case True
      with a show ?thesis by simp
    next
      case False
      note nq = this
      show ?thesis
      proof (cases "c = BSL")
        case True
        show ?thesis
        proof (cases "e = CHR ''u''")
          case True
          with \<open>c = BSL\<close> nq a obtain h1 h2 h3 h4 t' n where
            t: "t = h1 # h2 # h3 # h4 # t'" and d: "decode_uXXXX h1 h2 h3 h4 = Some n" and n: "n < 256"
            and p: "pcons (char_of n) (scanstring t') = Failed OutOfFuel"
            by (auto split: list.splits option.splits if_splits)
          from "3.IH"(1) nq \<open>c = BSL\<close> True t d n have "scanstring t' \<noteq> Failed OutOfFuel"
            by blast
          with pcons_fuel [OF p] show ?thesis by simp
        next
          case False
          with \<open>c = BSL\<close> nq a obtain ch where
            u: "unescape e = Some ch" and p: "pcons ch (scanstring t) = Failed OutOfFuel"
            by (auto split: option.splits)
          from "3.IH"(2) [OF nq \<open>c = BSL\<close> False u] pcons_fuel [OF p] show ?thesis by simp
        qed
      next
        case False
        with nq a have c: "\<not> (of_char c :: nat) < 0x20" "\<not> 0x80 \<le> (of_char c :: nat)"
          and p: "pcons c (scanstring (e # t)) = Failed OutOfFuel"
          by (auto split: if_splits)
        from "3.IH"(3) [OF nq False c] pcons_fuel [OF p] show ?thesis by simp
      qed
    qed
  qed
qed

lemma scan_digits_length: "scan_digits s acc = (n, r) \<Longrightarrow> length r \<le> length s"
  by (induction s arbitrary: acc) (auto split: if_splits dest: le_SucI)

lemma scan_int_consumes: "scan_int s = Some (n, r) \<Longrightarrow> length r < length s"
  by (auto simp: scan_int_def split: list.splits if_splits dest!: scan_digits_length)

lemma scan_number_consumes: "scan_number s = Parsed v r \<Longrightarrow> length r < length s"
proof -
  assume a: "scan_number s = Parsed v r"
  let ?body = "if s \<noteq> [] \<and> hd s = CHR ''-'' then tl s else s"
  from a obtain n where "scan_int ?body = Some (n, r)"
    by (auto simp: scan_number_def Let_def split: option.splits if_splits)
  from scan_int_consumes [OF this] show ?thesis
    by (cases s) (auto split: if_splits)
qed

lemma scan_number_fuel: "scan_number s \<noteq> Failed OutOfFuel"
proof (cases "scan_int (if s \<noteq> [] \<and> hd s = CHR ''-'' then tl s else s)")
  case None
  then show ?thesis by (simp add: scan_number_def Let_def)
next
  case (Some a)
  obtain n r where "a = (n, r)" by (cases a)
  with Some show ?thesis by (simp add: scan_number_def Let_def)
qed

lemma skip_ws_Cons_length: "skip_ws t = d # t' \<Longrightarrow> length t' < length t"
  using skip_ws_length [of t] by simp

lemma literal_consumes: "take k s = lit \<Longrightarrow> lit \<noteq> [] \<Longrightarrow> length (drop k s) < length s"
  by (cases s; cases k) auto

lemma parse_value_step_consumes:
  assumes E0: "\<forall>s vs r. parse_elems n s = Parsed vs r \<longrightarrow> length r < length s"
    and M0: "\<forall>s kvs r. parse_members n s = Parsed kvs r \<longrightarrow> length r < length s"
    and a: "parse_value (Suc n) s = Parsed v r"
  shows "length r < length s"
proof (cases s)
  case Nil
  with a show ?thesis by simp
next
  case (Cons c t)
  consider (str) "c = DQ" | (obj) "c \<noteq> DQ" "c = CHR ''{''"
    | (arr) "c \<noteq> DQ" "c \<noteq> CHR ''{''" "c = CHR ''[''"
    | (other) "c \<noteq> DQ" "c \<noteq> CHR ''{''" "c \<noteq> CHR ''[''"
    by blast
  then show ?thesis
  proof cases
    case str
    with a Cons obtain k where "scanstring t = Parsed k r"
      by (auto split: presult.splits)
    from scanstring_consumes [OF this] Cons show ?thesis by simp
  next
    case obj
    with a Cons obtain d t' where sk: "skip_ws t = d # t'"
      by (cases "skip_ws t") auto
    from skip_ws_Cons_length [OF sk] have l: "length t' < length t" .
    show ?thesis
    proof (cases "d = CHR ''}''")
      case True
      with a Cons obj sk have "r = t'" by simp
      with l Cons show ?thesis by simp
    next
      case False
      with a Cons obj sk obtain kvs where "parse_members n t' = Parsed kvs r"
        by (auto split: if_splits presult.splits)
      with M0 have "length r < length t'" by blast
      with l Cons show ?thesis by simp
    qed
  next
    case arr
    with a Cons obtain d t' where sk: "skip_ws t = d # t'"
      by (cases "skip_ws t") auto
    from skip_ws_length [of t] sk have l: "length (d # t') \<le> length t" by simp
    show ?thesis
    proof (cases "d = CHR '']''")
      case True
      with a Cons arr sk have "r = t'" by simp
      with l Cons show ?thesis by simp
    next
      case False
      with a Cons arr sk obtain vs where "parse_elems n (d # t') = Parsed vs r"
        by (auto split: presult.splits)
      with E0 have "length r < length (d # t')" by blast
      with l Cons show ?thesis by simp
    qed
  next
    case other
    from a Cons other have
      "(take 4 s = ''null'' \<and> r = drop 4 s) \<or> (take 4 s = ''true'' \<and> r = drop 4 s)
        \<or> (take 5 s = ''false'' \<and> r = drop 5 s) \<or> scan_number s = Parsed v r"
      by (simp split: if_splits)
    then show ?thesis
      using literal_consumes [of 4 s "''null''"] literal_consumes [of 4 s "''true''"]
        literal_consumes [of 5 s "''false''"] scan_number_consumes [of s v r]
      by auto
  qed
qed

lemma parse_elems_step_consumes:
  assumes V0: "\<forall>s v r. parse_value n s = Parsed v r \<longrightarrow> length r < length s"
    and E0: "\<forall>s vs r. parse_elems n s = Parsed vs r \<longrightarrow> length r < length s"
    and a: "parse_elems (Suc n) s = Parsed vs r"
  shows "length r < length s"
proof -
  from V0 have V: "\<And>s v r. parse_value n s = Parsed v r \<Longrightarrow> length r < length s" by blast
  from E0 have E: "\<And>s vs r. parse_elems n s = Parsed vs r \<Longrightarrow> length r < length s" by blast
  from a obtain v r0 where v: "parse_value n s = Parsed v r0"
    by (cases "parse_value n s") auto
  from V [OF v] have l0: "length r0 < length s" .
  from a v obtain d r1 where sk: "skip_ws r0 = d # r1"
    by (cases "skip_ws r0") auto
  from skip_ws_Cons_length [OF sk] l0 have l1: "length r1 < length s" by simp
  show ?thesis
  proof (cases "d = CHR '']''")
    case True
    with a v sk have "r = r1" by simp
    with l1 show ?thesis by simp
  next
    case False
    with a v sk obtain ws where "parse_elems n (skip_ws r1) = Parsed ws r"
      by (auto split: if_splits presult.splits)
    from E [OF this] skip_ws_length [of r1] l1 show ?thesis by simp
  qed
qed

lemma parse_members_step_consumes:
  assumes V0: "\<forall>s v r. parse_value n s = Parsed v r \<longrightarrow> length r < length s"
    and M0: "\<forall>s kvs r. parse_members n s = Parsed kvs r \<longrightarrow> length r < length s"
    and a: "parse_members (Suc n) s = Parsed kvs r"
  shows "length r < length s"
proof -
  from V0 have V: "\<And>s v r. parse_value n s = Parsed v r \<Longrightarrow> length r < length s" by blast
  from M0 have M: "\<And>s kvs r. parse_members n s = Parsed kvs r \<Longrightarrow> length r < length s" by blast
  from a obtain k r0 where k: "scanstring s = Parsed k r0"
    by (cases "scanstring s") auto
  from scanstring_consumes [OF k] have l0: "length r0 < length s" .
  from a k obtain c r1 where sk: "skip_ws r0 = c # r1"
    by (cases "skip_ws r0") auto
  from skip_ws_Cons_length [OF sk] l0 have l1: "length r1 < length s" by simp
  from a k sk have c: "c = CHR '':''" by (auto split: if_splits)
  from a k sk c obtain v r2 where v: "parse_value n (skip_ws r1) = Parsed v r2"
    by (cases "parse_value n (skip_ws r1)") auto
  from V [OF v] skip_ws_length [of r1] l1 have l2: "length r2 < length s" by simp
  from a k sk c v obtain d r3 where sk2: "skip_ws r2 = d # r3"
    by (cases "skip_ws r2") auto
  from skip_ws_Cons_length [OF sk2] l2 have l3: "length r3 < length s" by simp
  show ?thesis
  proof (cases "d = CHR ''}''")
    case True
    with a k sk c v sk2 have "r = r3" by simp
    with l3 show ?thesis by simp
  next
    case False
    with a k sk c v sk2 obtain q r4 where sk3: "skip_ws r3 = q # r4"
      by (cases "skip_ws r3") (auto split: if_splits)
    from skip_ws_Cons_length [OF sk3] l3 have l4: "length r4 < length s" by simp
    from False a k sk c v sk2 sk3 obtain kvs' where "parse_members n r4 = Parsed kvs' r"
      by (auto split: if_splits presult.splits)
    from M [OF this] l4 show ?thesis by simp
  qed
qed

lemma parse_consumes_all:
  "(\<forall>s v r. parse_value n s = Parsed v r \<longrightarrow> length r < length s)
 \<and> (\<forall>s vs r. parse_elems n s = Parsed vs r \<longrightarrow> length r < length s)
 \<and> (\<forall>s kvs r. parse_members n s = Parsed kvs r \<longrightarrow> length r < length s)"
proof (induction n)
  case 0
  show ?case by simp
next
  case (Suc n)
  then have V: "\<forall>s v r. parse_value n s = Parsed v r \<longrightarrow> length r < length s"
    and E: "\<forall>s vs r. parse_elems n s = Parsed vs r \<longrightarrow> length r < length s"
    and M: "\<forall>s kvs r. parse_members n s = Parsed kvs r \<longrightarrow> length r < length s"
    by simp_all
  show ?case
  proof (intro conjI allI impI)
    fix s v r
    assume "parse_value (Suc n) s = Parsed v r"
    with E M show "length r < length s" by (rule parse_value_step_consumes)
  next
    fix s vs r
    assume "parse_elems (Suc n) s = Parsed vs r"
    with V E show "length r < length s" by (rule parse_elems_step_consumes)
  next
    fix s kvs r
    assume "parse_members (Suc n) s = Parsed kvs r"
    with V M show "length r < length s" by (rule parse_members_step_consumes)
  qed
qed

lemma parse_value_consumes: "parse_value n s = Parsed v r \<Longrightarrow> length r < length s"
  using parse_consumes_all [of n] by blast

lemma parse_elems_consumes: "parse_elems n s = Parsed vs r \<Longrightarrow> length r < length s"
  using parse_consumes_all [of n] by blast

lemma parse_members_consumes: "parse_members n s = Parsed kvs r \<Longrightarrow> length r < length s"
  using parse_consumes_all [of n] by blast

lemma parse_value_step_fuel:
  assumes E0: "\<forall>s. 2 * length s + 1 < n \<longrightarrow> parse_elems n s \<noteq> Failed OutOfFuel"
    and M0: "\<forall>s. 2 * length s + 1 < n \<longrightarrow> parse_members n s \<noteq> Failed OutOfFuel"
    and l: "2 * length s < Suc n"
  shows "parse_value (Suc n) s \<noteq> Failed OutOfFuel"
proof
  assume a: "parse_value (Suc n) s = Failed OutOfFuel"
  show False
  proof (cases s)
    case Nil
    with a show ?thesis by simp
  next
    case (Cons c t)
    consider (str) "c = DQ" | (obj) "c \<noteq> DQ" "c = CHR ''{''"
      | (arr) "c \<noteq> DQ" "c \<noteq> CHR ''{''" "c = CHR ''[''"
      | (other) "c \<noteq> DQ" "c \<noteq> CHR ''{''" "c \<noteq> CHR ''[''"
      by blast
    then show ?thesis
    proof cases
      case str
      with a Cons have "scanstring t = Failed OutOfFuel"
        by (auto split: presult.splits)
      with scanstring_fuel show ?thesis by blast
    next
      case obj
      with a Cons obtain d t' where sk: "skip_ws t = d # t'"
        by (cases "skip_ws t") auto
      from skip_ws_Cons_length [OF sk] have lt: "length t' < length t" .
      from a Cons obj sk have "parse_members n t' = Failed OutOfFuel"
        by (auto split: if_splits presult.splits)
      moreover from lt l Cons have "2 * length t' + 1 < n" by simp
      ultimately show ?thesis using M0 by blast
    next
      case arr
      with a Cons obtain d t' where sk: "skip_ws t = d # t'"
        by (cases "skip_ws t") auto
      from skip_ws_length [of t] sk have lt: "length (d # t') \<le> length t" by simp
      from a Cons arr sk have "parse_elems n (d # t') = Failed OutOfFuel"
        by (auto split: if_splits presult.splits)
      moreover from lt l Cons have "2 * length (d # t') + 1 < n" by simp
      ultimately show ?thesis using E0 by blast
    next
      case other
      with a Cons have "scan_number s = Failed OutOfFuel"
        by (simp split: if_splits)
      with scan_number_fuel show ?thesis by blast
    qed
  qed
qed

lemma parse_elems_step_fuel:
  assumes V0: "\<forall>s. 2 * length s < n \<longrightarrow> parse_value n s \<noteq> Failed OutOfFuel"
    and E0: "\<forall>s. 2 * length s + 1 < n \<longrightarrow> parse_elems n s \<noteq> Failed OutOfFuel"
    and l: "2 * length s + 1 < Suc n"
  shows "parse_elems (Suc n) s \<noteq> Failed OutOfFuel"
proof
  assume a: "parse_elems (Suc n) s = Failed OutOfFuel"
  from l V0 have nv: "parse_value n s \<noteq> Failed OutOfFuel" by simp
  with a obtain v r0 where v: "parse_value n s = Parsed v r0"
    by (cases "parse_value n s") auto
  from parse_value_consumes [OF v] have l0: "length r0 < length s" .
  from a v obtain d r1 where sk: "skip_ws r0 = d # r1"
    by (cases "skip_ws r0") auto
  from skip_ws_Cons_length [OF sk] l0 have l1: "length r1 + 1 < length s" by simp
  from a v sk have "parse_elems n (skip_ws r1) = Failed OutOfFuel"
    by (auto split: if_splits presult.splits)
  moreover from skip_ws_length [of r1] l1 l have "2 * length (skip_ws r1) + 1 < n" by simp
  ultimately show False using E0 by blast
qed

lemma parse_members_step_fuel:
  assumes V0: "\<forall>s. 2 * length s < n \<longrightarrow> parse_value n s \<noteq> Failed OutOfFuel"
    and M0: "\<forall>s. 2 * length s + 1 < n \<longrightarrow> parse_members n s \<noteq> Failed OutOfFuel"
    and l: "2 * length s + 1 < Suc n"
  shows "parse_members (Suc n) s \<noteq> Failed OutOfFuel"
proof
  assume a: "parse_members (Suc n) s = Failed OutOfFuel"
  with scanstring_fuel [of s] obtain k r0 where k: "scanstring s = Parsed k r0"
    by (cases "scanstring s") auto
  from scanstring_consumes [OF k] have l0: "length r0 < length s" .
  from a k obtain c r1 where sk: "skip_ws r0 = c # r1"
    by (cases "skip_ws r0") auto
  from skip_ws_Cons_length [OF sk] l0 have l1: "length r1 + 1 < length s" by simp
  from a k sk have c: "c = CHR '':''" by (auto split: if_splits)
  from skip_ws_length [of r1] l1 l have "2 * length (skip_ws r1) < n" by simp
  with V0 have "parse_value n (skip_ws r1) \<noteq> Failed OutOfFuel" by blast
  with a k sk c obtain v r2 where v: "parse_value n (skip_ws r1) = Parsed v r2"
    by (cases "parse_value n (skip_ws r1)") auto
  from parse_value_consumes [OF v] skip_ws_length [of r1] l1
  have l2: "length r2 + 2 < length s" by simp
  from a k sk c v obtain d r3 where sk2: "skip_ws r2 = d # r3"
    by (cases "skip_ws r2") auto
  from skip_ws_Cons_length [OF sk2] l2 have l3: "length r3 + 3 < length s" by simp
  from a k sk c v sk2 obtain q r4 where sk3: "skip_ws r3 = q # r4"
    by (cases "skip_ws r3") (auto split: if_splits)
  from skip_ws_Cons_length [OF sk3] l3 have l4: "length r4 + 4 < length s" by simp
  from a k sk c v sk2 sk3 have "parse_members n r4 = Failed OutOfFuel"
    by (auto split: if_splits presult.splits)
  moreover from l4 l have "2 * length r4 + 1 < n" by simp
  ultimately show False using M0 by blast
qed

lemma parse_fuel_all:
  "(\<forall>s. 2 * length s < n \<longrightarrow> parse_value n s \<noteq> Failed OutOfFuel)
 \<and> (\<forall>s. 2 * length s + 1 < n \<longrightarrow> parse_elems n s \<noteq> Failed OutOfFuel)
 \<and> (\<forall>s. 2 * length s + 1 < n \<longrightarrow> parse_members n s \<noteq> Failed OutOfFuel)"
proof (induction n)
  case 0
  show ?case by simp
next
  case (Suc n)
  then have V: "\<forall>s. 2 * length s < n \<longrightarrow> parse_value n s \<noteq> Failed OutOfFuel"
    and E: "\<forall>s. 2 * length s + 1 < n \<longrightarrow> parse_elems n s \<noteq> Failed OutOfFuel"
    and M: "\<forall>s. 2 * length s + 1 < n \<longrightarrow> parse_members n s \<noteq> Failed OutOfFuel"
    by simp_all
  show ?case
  proof (intro conjI allI impI)
    fix s :: string
    assume "2 * length s < Suc n"
    with E M show "parse_value (Suc n) s \<noteq> Failed OutOfFuel" by (rule parse_value_step_fuel)
  next
    fix s :: string
    assume "2 * length s + 1 < Suc n"
    with V E show "parse_elems (Suc n) s \<noteq> Failed OutOfFuel" by (rule parse_elems_step_fuel)
  next
    fix s :: string
    assume "2 * length s + 1 < Suc n"
    with V M show "parse_members (Suc n) s \<noteq> Failed OutOfFuel" by (rule parse_members_step_fuel)
  qed
qed

lemma json_loads_fuel: "json_loads s \<noteq> Inl OutOfFuel"
proof -
  have "2 * length (skip_ws s) < 2 * length s + 2"
    using skip_ws_length [of s] by simp
  with parse_fuel_all [of "2 * length s + 2"]
  have nf: "parse_value (2 * length s + 2) (skip_ws s) \<noteq> Failed OutOfFuel" by blast
  show ?thesis
  proof (cases "parse_value (2 * length s + 2) (skip_ws s)")
    case (Parsed v r)
    then show ?thesis by (simp add: json_loads_def del: parse_value.simps)
  next
    case (Failed e)
    with nf show ?thesis by (simp add: json_loads_def del: parse_value.simps)
  qed
qed

end
